theory Spec2Isabelle
  imports Main "HOL-Library.Word" "HOL-Library.Multiset"
begin

section \<open>Data model\<close>

text \<open>
  A JavaScript string is a sequence of 16-bit code units; \<open>text.length\<close> and every
  index reported by the regular-expression engine count code units.
\<close>

type_synonym code_unit = "16 word"
type_synonym jsstring = "code_unit list"

definition lit :: "string \<Rightarrow> jsstring" where
  "lit s = map of_char s"

text \<open>
  \<open>interface Slice { start: number; end: number; matched?: boolean }\<close>.
  The numbers the pipeline handles are indices, modelled as integers; an absent
  \<open>matched\<close> property is \<open>None\<close>.
\<close>

record slice =
  start :: int
  end' :: int
  matched :: "bool option"

section \<open>The overlap merger\<close>

text \<open>
  The \<open>for\<close> loop of \<open>mergeOverlap\<close>: \<open>current\<close> is the accumulator, the list
  argument holds \<open>sortedSlices[i..]\<close>, \<open>merged\<close> is the output array. A coalesced
  accumulator is the fresh object \<open>{ start, end }\<close>, which has no \<open>matched\<close>
  property; \<open>{ ...next }\<close> copies every property of \<open>next\<close>.
\<close>

fun merge_loop :: "slice \<Rightarrow> slice list \<Rightarrow> slice list \<Rightarrow> slice list" where
  "merge_loop current [] merged = merged @ [current]"
| "merge_loop current (next # rest) merged =
     (if start next \<le> end' current
      then merge_loop
             \<lparr>start = start current, end' = max (end' current) (end' next), matched = None\<rparr>
             rest merged
      else merge_loop next rest (merged @ [current]))"

text \<open>
  \<open>toSorted((a, b) => a.start - b.start)\<close> is a stable sort on \<open>start\<close>, as
  \<open>sort_key\<close> is. With an empty sorted array \<open>current\<close> would be undefined and
  nothing is pushed.
\<close>

definition mergeOverlap :: "slice list \<Rightarrow> slice list" where
  "mergeOverlap slices =
     (if length slices = 0 then slices
      else (case sort_key start slices of
              [] \<Rightarrow> []
            | current # rest \<Rightarrow> merge_loop current rest []))"

section \<open>The gap filler\<close>

text \<open>The local closure \<open>push\<close>, with the array it appends to made explicit.\<close>

definition push :: "slice list \<Rightarrow> int \<Rightarrow> int \<Rightarrow> bool \<Rightarrow> slice list" where
  "push matchedSlices s e m =
     (if e - s > 0 then matchedSlices @ [\<lparr>start = s, end' = e, matched = Some m\<rparr>]
      else matchedSlices)"

text \<open>One round of the \<open>forEach\<close>; the state is \<open>(matchedSlices, startIndex)\<close>.\<close>

definition fill_step :: "slice \<Rightarrow> slice list \<times> int \<Rightarrow> slice list \<times> int" where
  "fill_step sl st =
     (case st of (matchedSlices, startIndex) \<Rightarrow>
        (push (push matchedSlices startIndex (start sl) False) (start sl) (end' sl) True,
         end' sl))"

definition fillSliceGaps :: "slice list \<Rightarrow> int \<Rightarrow> slice list" where
  "fillSliceGaps slices textLength =
     (if textLength = 0 then []
      else if length slices = 0 then push [] 0 textLength False
      else (case fold fill_step slices ([], 0) of
              (matchedSlices, startIndex) \<Rightarrow> push matchedSlices startIndex textLength False))"

section \<open>The helpers \<open>escapeRegex\<close> and \<open>pattern\<close>\<close>

definition backslash :: code_unit where
  "backslash = 0x5C"

text \<open>
  The character class of \<open>escapeRegex\<close>, in the order of the source:
  \<^verbatim>\<open>( ) [ ] { } / * + ? . \ ^ $ | -\<close>. Every occurrence is replaced by a backslash
  followed by the character itself.
\<close>

definition special_chars :: jsstring where
  "special_chars = lit ''()[]{}/*+?.'' @ [backslash] @ lit ''^$|-''"

definition escapeRegex :: "jsstring \<Rightarrow> jsstring" where
  "escapeRegex string =
     concat (map (\<lambda>c. if c \<in> set special_chars then [backslash, c] else [c]) string)"

text \<open>
  \<open>String.prototype.trim\<close> strips the white space and line terminator code units of
  ECMAScript from both ends.
\<close>

definition isWhiteSpace :: "code_unit \<Rightarrow> bool" where
  "isWhiteSpace c =
     (c \<in> {0x9, 0xA, 0xB, 0xC, 0xD, 0x20, 0xA0, 0x1680, 0x2028, 0x2029, 0x202F, 0x205F,
            0x3000, 0xFEFF}
      \<or> (0x2000 \<le> c \<and> c \<le> 0x200A))"

definition trim :: "jsstring \<Rightarrow> jsstring" where
  "trim s = rev (dropWhile isWhiteSpace (rev (dropWhile isWhiteSpace s)))"

text \<open>The type \<open>boolean | 'start' | 'end'\<close> of the boundary mode.\<close>

datatype boundary = BoundaryBool bool | BoundaryStart | BoundaryEnd

definition pattern :: "jsstring \<Rightarrow> boundary \<Rightarrow> jsstring" where
  "pattern word b =
     (if trim word = [] \<or> b = BoundaryBool False then word
      else if b = BoundaryStart then [backslash] @ lit ''b'' @ word @ [backslash] @ lit ''w+''
      else if b = BoundaryEnd then [backslash] @ lit ''w+'' @ word @ [backslash] @ lit ''b''
      else if b = BoundaryBool True then [backslash] @ lit ''b'' @ word @ [backslash] @ lit ''b''
      else word)"

section \<open>Regular expressions of the host\<close>

text \<open>
  A \<open>RegExp\<close> object is its pattern, its flags and the mutable \<open>lastIndex\<close>. The
  engine that compiles and runs patterns belongs to the JavaScript runtime, not to this
  library, and is a parameter: \<open>valid\<close> tells whether \<open>new RegExp(pattern, flags)\<close>
  compiles (it throws a \<open>SyntaxError\<close> otherwise), and \<open>search\<close> is the engine's
  search for the first match from a position on, giving the index of the match and the
  length of the matched text.
\<close>

datatype error = SyntaxError

record regexp =
  source :: jsstring
  flags :: string
  lastIndex :: nat

record engine =
  valid :: "jsstring \<Rightarrow> string \<Rightarrow> bool"
  search :: "jsstring \<Rightarrow> string \<Rightarrow> jsstring \<Rightarrow> nat \<Rightarrow> (nat \<times> nat) option"

definition new_RegExp :: "engine \<Rightarrow> jsstring \<Rightarrow> string \<Rightarrow> error + regexp" where
  "new_RegExp eng pat fl =
     (if valid eng pat fl then Inr \<lparr>source = pat, flags = fl, lastIndex = 0\<rparr>
      else Inl SyntaxError)"

text \<open>A regular expression keeps a cursor when it is global (\<open>g\<close>) or sticky (\<open>y\<close>).\<close>

definition tracked :: "regexp \<Rightarrow> bool" where
  "tracked r = (CHR ''g'' \<in> set (flags r) \<or> CHR ''y'' \<in> set (flags r))"

text \<open>
  \<open>regex.exec(text)\<close> after ECMAScript's RegExpBuiltinExec: the search begins at
  \<open>lastIndex\<close> (at 0 without a cursor); beyond the end of the text, or without a
  match, the result is \<open>null\<close> and the cursor is reset to 0; on a match the cursor
  moves to the end of the matched text. The result is the match, if any, as its index
  and its end, and the object after the call.
\<close>

definition exec :: "engine \<Rightarrow> regexp \<Rightarrow> jsstring \<Rightarrow> (nat \<times> nat) option \<times> regexp" where
  "exec eng r text =
     (let i = (if tracked r then lastIndex r else 0);
          failure = (None, if tracked r then r\<lparr>lastIndex := 0\<rparr> else r)
      in if i > length text then failure
         else (case search eng (source r) (flags r) text i of
                 None \<Rightarrow> failure
               | Some (index, n) \<Rightarrow>
                   (Some (index, index + n),
                    if tracked r then r\<lparr>lastIndex := index + n\<rparr> else r)))"

section \<open>The occurrence scanner\<close>

text \<open>\<open>type Match = (word: string) => RegExp\<close>; the call may throw.\<close>

type_synonym match = "jsstring \<Rightarrow> error + regexp"

record options =
  escape :: "bool option"
  boundary :: "boundary option"
  caseSensitive :: "bool option"

datatype options_or_match = Options options | Match match

text \<open>The default value of the parameter \<open>options\<close> of \<open>slicing\<close>.\<close>

definition default_options :: options where
  "default_options =
     \<lparr>escape = Some True, boundary = Some (BoundaryBool True), caseSensitive = Some False\<rparr>"

text \<open>JavaScript truthiness of a boundary mode: the two strings are not empty.\<close>

fun truthy :: "boundary \<Rightarrow> bool" where
  "truthy (BoundaryBool b) = b"
| "truthy BoundaryStart = True"
| "truthy BoundaryEnd = True"

text \<open>
  The matcher that \<open>slicing\<close> builds from a configuration object: the two
  assignments to \<open>word\<close> give the pattern, the last conditional the flags. An absent
  field is \<open>undefined\<close>, which is falsy in each of the three conditionals.
\<close>

definition options_pattern :: "options \<Rightarrow> jsstring \<Rightarrow> jsstring" where
  "options_pattern opts word =
     (let word1 = (if escape opts = Some True then escapeRegex word else word)
      in (case boundary opts of
            None \<Rightarrow> word1
          | Some b \<Rightarrow> if truthy b then pattern word1 b else word1))"

definition options_flags :: "options \<Rightarrow> string" where
  "options_flags opts = (if caseSensitive opts = Some True then ''g'' else ''gi'')"

definition options_match :: "engine \<Rightarrow> options \<Rightarrow> match" where
  "options_match eng opts word = new_RegExp eng (options_pattern opts word) (options_flags opts)"

text \<open>\<open>Array.from(new Set(searchWords))\<close>: the first occurrence of each word, in order.\<close>

definition unique :: "'a list \<Rightarrow> 'a list" where
  "unique xs = fold (\<lambda>x seen. if x \<in> set seen then seen else seen @ [x]) xs []"

text \<open>
  The \<open>while\<close> loop over \<open>regex.exec(text)\<close>. It need not end (a regular expression
  without a cursor matches at the same place again and again), so it is a partial
  function: \<open>None\<close> means that the loop never returns. \<open>start_ix\<close> is
  \<open>matched.index\<close>, \<open>end_ix\<close> is \<open>regex.lastIndex\<close> read after the call.
\<close>

partial_function (option) scan_loop ::
  "engine \<Rightarrow> regexp \<Rightarrow> jsstring \<Rightarrow> slice list \<Rightarrow> slice list option" where
  "scan_loop eng regex text slices =
     (case exec eng regex text of
        (None, regex') \<Rightarrow> Some slices
      | (Some result, regex') \<Rightarrow>
          (let start_ix = fst result;
               end_ix = lastIndex regex';
               slices' = (if end_ix > start_ix
                          then slices @ [\<lparr>start = int start_ix, end' = int end_ix, matched = None\<rparr>]
                          else slices);
               regex'' = (if start_ix = end_ix then regex'\<lparr>lastIndex := lastIndex regex' + 1\<rparr>
                          else regex')
           in scan_loop eng regex'' text slices'))"

text \<open>
  The \<open>reduce\<close> over the surviving words. The result is \<open>None\<close> when a loop never
  returns, \<open>Some (Inl e)\<close> when building a matcher throws \<open>e\<close>, and
  \<open>Some (Inr slices)\<close> when the call returns \<open>slices\<close>.
\<close>

fun scan_words ::
  "engine \<Rightarrow> match \<Rightarrow> jsstring \<Rightarrow> jsstring list \<Rightarrow> slice list \<Rightarrow> (error + slice list) option"
where
  "scan_words eng mtch text [] slices = Some (Inr slices)"
| "scan_words eng mtch text (word # rest) slices =
     (case mtch word of
        Inl e \<Rightarrow> Some (Inl e)
      | Inr regex \<Rightarrow>
          (case scan_loop eng regex text slices of
             None \<Rightarrow> None
           | Some slices' \<Rightarrow> scan_words eng mtch text rest slices'))"

text \<open>
  \<open>slicing\<close>; an omitted third argument is \<open>None\<close> and takes the default value of
  the parameter. The first assignment to \<open>match\<close> in the source is overwritten on both
  branches of the \<open>typeof\<close> test and has no effect.
\<close>

definition slicing ::
  "engine \<Rightarrow> jsstring \<Rightarrow> jsstring list \<Rightarrow> options_or_match option \<Rightarrow> (error + slice list) option"
where
  "slicing eng text searchWords opt =
     (let options = (case opt of None \<Rightarrow> Options default_options | Some v \<Rightarrow> v);
          mtch = (case options of Match f \<Rightarrow> f | Options os \<Rightarrow> options_match eng os)
      in scan_words eng mtch text (filter (\<lambda>word. word \<noteq> []) (unique searchWords)) [])"

section \<open>The pipeline facade\<close>

definition sliceText ::
  "engine \<Rightarrow> jsstring \<Rightarrow> jsstring list \<Rightarrow> options_or_match option \<Rightarrow> (error + slice list) option"
where
  "sliceText eng text searchWords opt =
     (case slicing eng text searchWords opt of
        None \<Rightarrow> None
      | Some (Inl e) \<Rightarrow> Some (Inl e)
      | Some (Inr slices) \<Rightarrow>
          Some (Inr (fillSliceGaps (mergeOverlap slices) (int (length text)))))"

text \<open>\<open>text.slice(start, end)\<close>: a negative index counts from the end, both are clamped.\<close>

definition js_slice :: "jsstring \<Rightarrow> int \<Rightarrow> int \<Rightarrow> jsstring" where
  "js_slice text s e =
     (let len = int (length text);
          from = (if s < 0 then max (len + s) 0 else min s len);
          to = (if e < 0 then max (len + e) 0 else min e len)
      in take (nat (to - from)) (drop (nat from) text))"

section \<open>Notions used in the statements\<close>

text \<open>The half-open range of a slice, without its flag.\<close>

type_synonym span = "int \<times> int"

definition span_of :: "slice \<Rightarrow> span" where
  "span_of s = (start s, end' s)"

text \<open>
  The merge as the specification words it, on ranges: sort ascending by \<open>start\<close>; the
  first sorted span is the accumulator; a span that starts at or before the end of the
  accumulator extends the end of the accumulator to the maximum of the two ends; any
  other span flushes the accumulator to the output and becomes the new accumulator; the
  last accumulator is flushed at the end.
\<close>

fun coalesce_spec :: "span \<Rightarrow> span list \<Rightarrow> span list" where
  "coalesce_spec current [] = [current]"
| "coalesce_spec current (next # rest) =
     (if fst next \<le> snd current
      then coalesce_spec (fst current, max (snd current) (snd next)) rest
      else current # coalesce_spec next rest)"

definition merge_spec :: "span list \<Rightarrow> span list" where
  "merge_spec spans =
     (case sort_key fst spans of
        [] \<Rightarrow> []
      | first # rest \<Rightarrow> coalesce_spec first rest)"

text \<open>
  A span sequence that is sorted, does not overlap and lies in the text of length \<open>n\<close>:
  every span ends where or before each later one starts, and \<open>0 \<le> start \<le> end \<le> n\<close>.
\<close>

definition sorted_disjoint_within :: "slice list \<Rightarrow> int \<Rightarrow> bool" where
  "sorted_disjoint_within spans n =
     (sorted_wrt (\<lambda>a b. end' a \<le> start b) spans \<and>
      (\<forall>s \<in> set spans. 0 \<le> start s \<and> start s \<le> end' s \<and> end' s \<le> n))"

text \<open>
  \<open>tiles a xs b\<close>: the slices \<open>xs\<close>, none of them empty, lead from \<open>a\<close> to \<open>b\<close>
  without a gap.
\<close>

fun tiles :: "int \<Rightarrow> slice list \<Rightarrow> int \<Rightarrow> bool" where
  "tiles a [] b = (a = b)"
| "tiles a (s # ss) b = (start s = a \<and> start s < end' s \<and> tiles (end' s) ss b)"

text \<open>
  What the scanner needs from the engine on a text. \<open>finds_forward\<close>: an occurrence
  reported for a search from position \<open>i\<close> starts at or after \<open>i\<close>.
  \<open>finds_within\<close>: an occurrence ends inside the text. Both hold of
  \<open>RegExp.prototype.exec\<close> for a regular expression without the flag \<open>u\<close> or
  \<open>v\<close>, such as those that \<open>slicing\<close> builds from a configuration object; with
  one of these flags a search that begins inside a surrogate pair can report a match that
  starts one unit before the cursor.
\<close>

definition finds_forward :: "engine \<Rightarrow> jsstring \<Rightarrow> bool" where
  "finds_forward eng text =
     (\<forall>pat fl i s n. search eng pat fl text i = Some (s, n) \<longrightarrow> i \<le> s)"

definition finds_within :: "engine \<Rightarrow> jsstring \<Rightarrow> bool" where
  "finds_within eng text =
     (\<forall>pat fl i s n. search eng pat fl text i = Some (s, n) \<longrightarrow> s + n \<le> length text)"

text \<open>A slice that is a non-empty range of the text.\<close>

definition in_text :: "jsstring \<Rightarrow> slice \<Rightarrow> bool" where
  "in_text text s = (0 \<le> start s \<and> start s < end' s \<and> end' s \<le> int (length text))"

text \<open>
  An engine to run examples on: every pattern compiles and stands for itself, so a search
  finds the next place where the pattern occurs literally in the text. This is what a
  JavaScript engine does for a pattern without metacharacters (and for the empty pattern,
  which matches with width zero at every position) when letter case plays no part.
\<close>

definition literal_engine :: engine where
  "literal_engine =
     \<lparr>valid = (\<lambda>pat fl. True),
      search = (\<lambda>pat fl text i.
        (case filter (\<lambda>j. take (length pat) (drop j text) = pat) [i..<Suc (length text)] of
           [] \<Rightarrow> None
         | j # _ \<Rightarrow> Some (j, length pat)))\<rparr>"

text \<open>
  The loop of \<open>mergeOverlap\<close> as a fold over the sorted array, for the proofs: the state
  is the output array and the accumulator, which is absent before the first slice.
\<close>

fun merge_step :: "slice \<Rightarrow> slice list \<times> slice option \<Rightarrow> slice list \<times> slice option" where
  "merge_step next (merged, None) = (merged, Some next)"
| "merge_step next (merged, Some current) =
     (if start next \<le> end' current
      then (merged,
            Some \<lparr>start = start current, end' = max (end' current) (end' next), matched = None\<rparr>)
      else (merged @ [current], Some next))"

fun flush :: "slice list \<times> slice option \<Rightarrow> slice list" where
  "flush (merged, None) = merged"
| "flush (merged, Some current) = merged @ [current]"

text \<open>A slice without its \<open>matched\<close> property.\<close>

definition unflag :: "slice \<Rightarrow> slice" where
  "unflag s = s\<lparr>matched := None\<rparr>"

text \<open>Two slices with a gap between them.\<close>

abbreviation (input) apart :: "slice \<Rightarrow> slice \<Rightarrow> bool" where
  "apart a b \<equiv> end' a < start b"

text \<open>
  A configuration object with every field written out, each absent field as \<open>false\<close>.
\<close>

definition explicit_options :: "options \<Rightarrow> options" where
  "explicit_options opts =
     \<lparr>escape = Some (escape opts = Some True),
      boundary = Some (case boundary opts of None \<Rightarrow> BoundaryBool False | Some b \<Rightarrow> b),
      caseSensitive = Some (caseSensitive opts = Some True)\<rparr>"

section \<open>The boundary pattern builder and the options\<close>

lemma trim_empty_iff: "trim w = [] \<longleftrightarrow> (\<forall>c \<in> set w. isWhiteSpace c)"
proof
  assume "trim w = []"
  then have all: "\<forall>c \<in> set (dropWhile isWhiteSpace w). isWhiteSpace c"
    by (simp add: trim_def dropWhile_eq_Nil_conv)
  have "dropWhile isWhiteSpace w = []"
  proof (rule ccontr)
    assume ne: "dropWhile isWhiteSpace w \<noteq> []"
    then have "\<not> isWhiteSpace (hd (dropWhile isWhiteSpace w))" by (rule hd_dropWhile)
    moreover have "hd (dropWhile isWhiteSpace w) \<in> set (dropWhile isWhiteSpace w)"
      using ne by simp
    ultimately show False using all by blast
  qed
  then show "\<forall>c \<in> set w. isWhiteSpace c" by (simp add: dropWhile_eq_Nil_conv)
next
  assume "\<forall>c \<in> set w. isWhiteSpace c"
  then show "trim w = []" by (auto simp: trim_def dest: set_dropWhileD)
qed

text \<open>
  C9. For every word and boundary mode, \<open>pattern\<close> returns the word unchanged when the
  mode is \<open>false\<close> or the trimmed word is empty; otherwise it returns
  \<^verbatim>\<open>\b\<close> + word + \<^verbatim>\<open>\w+\<close> for \<open>'start'\<close>,
  \<^verbatim>\<open>\w+\<close> + word + \<^verbatim>\<open>\b\<close> for \<open>'end'\<close>, and
  \<^verbatim>\<open>\b\<close> + word + \<^verbatim>\<open>\b\<close> for \<open>true\<close>. The code units are
  written out: 0x5C is the backslash, 0x62 \<open>b\<close>, 0x77 \<open>w\<close>, 0x2B \<open>+\<close>.
\<close>

theorem pattern_cases:
  "(b = BoundaryBool False \<or> trim word = [] \<longrightarrow> pattern word b = word) \<and>
   (trim word \<noteq> [] \<longrightarrow>
      pattern word BoundaryStart = [0x5C, 0x62] @ word @ [0x5C, 0x77, 0x2B] \<and>
      pattern word BoundaryEnd = [0x5C, 0x77, 0x2B] @ word @ [0x5C, 0x62] \<and>
      pattern word (BoundaryBool True) = [0x5C, 0x62] @ word @ [0x5C, 0x62])"
  by (simp add: pattern_def backslash_def lit_def)

theorem pattern_cases_witness:
  "trim (lit ''test'') \<noteq> [] \<and> trim (lit ''  '') = [] \<and>
   pattern (lit ''test'') (BoundaryBool False) = lit ''test'' \<and>
   pattern (lit ''  '') (BoundaryBool True) = lit ''  '' \<and>
   pattern (lit ''test'') BoundaryStart = [0x5C] @ lit ''btest'' @ [0x5C] @ lit ''w+'' \<and>
   pattern (lit ''test'') BoundaryEnd = [0x5C] @ lit ''w+test'' @ [0x5C] @ lit ''b'' \<and>
   pattern (lit ''test'') (BoundaryBool True) = [0x5C] @ lit ''btest'' @ [0x5C] @ lit ''b''"
proof -
  have t: "trim (lit ''test'') \<noteq> []" by (simp add: trim_def lit_def isWhiteSpace_def)
  have e: "trim (lit ''  '') = []" by (simp add: trim_def lit_def isWhiteSpace_def)
  from pattern_cases[of "BoundaryBool False" "lit ''test''"]
       pattern_cases[of "BoundaryBool True" "lit ''  ''"] t e
  show ?thesis by (simp add: lit_def)
qed

lemma set_unique_fold:
  "set (fold (\<lambda>x seen. if x \<in> set seen then seen else seen @ [x]) xs acc) = set acc \<union> set xs"
  by (induction xs arbitrary: acc) auto

lemma set_unique: "set (unique xs) = set xs"
  by (simp add: unique_def set_unique_fold)

lemma escapeRegex_id: "\<forall>c \<in> set w. c \<notin> set special_chars \<Longrightarrow> escapeRegex w = w"
  by (induction w) (simp_all add: escapeRegex_def)

lemma whitespace_not_special: "isWhiteSpace c \<Longrightarrow> c \<notin> set special_chars"
  by (auto simp: isWhiteSpace_def special_chars_def lit_def backslash_def)

text \<open>
  C2 claims that each option omitted from a configuration object takes its default, so
  that the object with no field behaves as the default configuration. For the term
  \<open>a.b\<close> the object with no field gives the pattern \<open>a.b\<close>, neither escaped nor
  anchored, while the default configuration gives \<^verbatim>\<open>\ba\.b\b\<close>.
\<close>

theorem options_defaults_counterexample:
  "options_pattern \<lparr>escape = None, boundary = None, caseSensitive = None\<rparr> (lit ''a.b'') = lit ''a.b'' \<and>
   options_pattern default_options (lit ''a.b'') = [0x5C] @ lit ''ba'' @ [0x5C] @ lit ''.b'' @ [0x5C] @ lit ''b'' \<and>
   options_pattern \<lparr>escape = None, boundary = None, caseSensitive = None\<rparr> (lit ''a.b'')
     \<noteq> options_pattern default_options (lit ''a.b'')"
  by (simp add: options_pattern_def default_options_def escapeRegex_def special_chars_def
      pattern_def trim_def isWhiteSpace_def lit_def backslash_def)

lemma options_match_explicit: "options_match eng (explicit_options opts) = options_match eng opts"
  by (rule ext)
     (auto simp: options_match_def options_pattern_def options_flags_def explicit_options_def
           split: option.splits)

text \<open>
  C2, amended. When the third argument is omitted, \<open>slicing\<close> and \<open>sliceText\<close> use
  the default configuration \<open>{ escape: true, boundary: true, caseSensitive: false }\<close>:
  every term is scanned with \<open>new RegExp(pattern(escapeRegex(term), true), 'gi')\<close>. With
  a configuration object, every term is scanned with the regular expression whose pattern
  is the term, escaped exactly when \<open>escape\<close> is \<open>true\<close>, and passed through
  \<open>pattern\<close> exactly when \<open>boundary\<close> is \<open>true\<close>, \<open>'start'\<close> or \<open>'end'\<close>
  (with that mode), and whose flags are \<open>g\<close> when \<open>caseSensitive\<close> is \<open>true\<close> and
  \<open>gi\<close> otherwise: an omitted option counts as \<open>false\<close>. So the results are those for
  the object with each absent field written as \<open>false\<close>, and the object with no field
  behaves as \<open>{ escape: false, boundary: false, caseSensitive: false }\<close>: every term is
  scanned with \<open>new RegExp(term, 'gi')\<close>. \<open>sliceText\<close> merges and fills what
  \<open>slicing\<close> gives for the same third argument.
\<close>

theorem options_defaults_amended:
  "slicing eng text searchWords None =
     scan_words eng
       (\<lambda>word. new_RegExp eng (pattern (escapeRegex word) (BoundaryBool True)) ''gi'')
       text (filter (\<lambda>w. w \<noteq> []) (unique searchWords)) [] \<and>
   slicing eng text searchWords (Some (Options opts)) =
     scan_words eng
       (\<lambda>word. new_RegExp eng
          (case boundary opts of
             None \<Rightarrow> (if escape opts = Some True then escapeRegex word else word)
           | Some (BoundaryBool False) \<Rightarrow>
               (if escape opts = Some True then escapeRegex word else word)
           | Some (BoundaryBool True) \<Rightarrow>
               pattern (if escape opts = Some True then escapeRegex word else word)
                 (BoundaryBool True)
           | Some BoundaryStart \<Rightarrow>
               pattern (if escape opts = Some True then escapeRegex word else word) BoundaryStart
           | Some BoundaryEnd \<Rightarrow>
               pattern (if escape opts = Some True then escapeRegex word else word) BoundaryEnd)
          (if caseSensitive opts = Some True then ''g'' else ''gi''))
       text (filter (\<lambda>w. w \<noteq> []) (unique searchWords)) [] \<and>
   slicing eng text searchWords
       (Some (Options \<lparr>escape = None, boundary = None, caseSensitive = None\<rparr>)) =
     scan_words eng (\<lambda>word. new_RegExp eng word ''gi'')
       text (filter (\<lambda>w. w \<noteq> []) (unique searchWords)) [] \<and>
   sliceText eng text searchWords (Some (Options opts)) =
     map_option (map_sum id (\<lambda>raw. fillSliceGaps (mergeOverlap raw) (int (length text))))
       (slicing eng text searchWords (Some (Options opts))) \<and>
   sliceText eng text searchWords None =
     map_option (map_sum id (\<lambda>raw. fillSliceGaps (mergeOverlap raw) (int (length text))))
       (slicing eng text searchWords None) \<and>
   slicing eng text searchWords None =
     slicing eng text searchWords
       (Some (Options \<lparr>escape = Some True, boundary = Some (BoundaryBool True),
                       caseSensitive = Some False\<rparr>)) \<and>
   sliceText eng text searchWords None =
     sliceText eng text searchWords
       (Some (Options \<lparr>escape = Some True, boundary = Some (BoundaryBool True),
                       caseSensitive = Some False\<rparr>)) \<and>
   options_match eng default_options word =
     new_RegExp eng (pattern (escapeRegex word) (BoundaryBool True)) ''gi'' \<and>
   slicing eng text searchWords (Some (Options opts)) =
     slicing eng text searchWords (Some (Options (explicit_options opts))) \<and>
   sliceText eng text searchWords (Some (Options opts)) =
     sliceText eng text searchWords (Some (Options (explicit_options opts))) \<and>
   slicing eng text searchWords
       (Some (Options \<lparr>escape = None, boundary = None, caseSensitive = None\<rparr>)) =
     slicing eng text searchWords
       (Some (Options \<lparr>escape = Some False, boundary = Some (BoundaryBool False),
                       caseSensitive = Some False\<rparr>)) \<and>
   sliceText eng text searchWords
       (Some (Options \<lparr>escape = None, boundary = None, caseSensitive = None\<rparr>)) =
     sliceText eng text searchWords
       (Some (Options \<lparr>escape = Some False, boundary = Some (BoundaryBool False),
                       caseSensitive = Some False\<rparr>)) \<and>
   options_match eng \<lparr>escape = None, boundary = None, caseSensitive = None\<rparr> word =
     new_RegExp eng word ''gi''"
proof -
  have m: "options_match eng opts =
     (\<lambda>word. new_RegExp eng
          (case boundary opts of
             None \<Rightarrow> (if escape opts = Some True then escapeRegex word else word)
           | Some (BoundaryBool False) \<Rightarrow>
               (if escape opts = Some True then escapeRegex word else word)
           | Some (BoundaryBool True) \<Rightarrow>
               pattern (if escape opts = Some True then escapeRegex word else word)
                 (BoundaryBool True)
           | Some BoundaryStart \<Rightarrow>
               pattern (if escape opts = Some True then escapeRegex word else word) BoundaryStart
           | Some BoundaryEnd \<Rightarrow>
               pattern (if escape opts = Some True then escapeRegex word else word) BoundaryEnd)
          (if caseSensitive opts = Some True then ''g'' else ''gi''))"
    by (rule ext)
       (simp add: options_match_def options_pattern_def options_flags_def
             split: option.splits boundary.splits bool.splits)
  have dm: "options_match eng default_options word =
      new_RegExp eng (pattern (escapeRegex word) (BoundaryBool True)) ''gi''" for word
    by (simp add: options_match_def options_pattern_def options_flags_def default_options_def)
  have em: "options_match eng \<lparr>escape = None, boundary = None, caseSensitive = None\<rparr> word =
      new_RegExp eng word ''gi''" for word
    by (simp add: options_match_def options_pattern_def options_flags_def)
  have s1: "slicing eng text searchWords None =
     scan_words eng
       (\<lambda>word. new_RegExp eng (pattern (escapeRegex word) (BoundaryBool True)) ''gi'')
       text (filter (\<lambda>w. w \<noteq> []) (unique searchWords)) []"
    by (simp add: slicing_def dm[abs_def])
  have s2: "slicing eng text searchWords (Some (Options opts)) =
     scan_words eng (options_match eng opts)
       text (filter (\<lambda>w. w \<noteq> []) (unique searchWords)) []"
    by (simp add: slicing_def)
  have s3: "slicing eng text searchWords
       (Some (Options \<lparr>escape = None, boundary = None, caseSensitive = None\<rparr>)) =
     scan_words eng (\<lambda>word. new_RegExp eng word ''gi'')
       text (filter (\<lambda>w. w \<noteq> []) (unique searchWords)) []"
    by (simp add: slicing_def em[abs_def])
  have c: "sliceText eng text searchWords opt =
     map_option (map_sum id (\<lambda>raw. fillSliceGaps (mergeOverlap raw) (int (length text))))
       (slicing eng text searchWords opt)" for opt
    by (simp add: sliceText_def split: option.splits sum.splits)
  have ex: "explicit_options \<lparr>escape = None, boundary = None, caseSensitive = None\<rparr> =
      \<lparr>escape = Some False, boundary = Some (BoundaryBool False), caseSensitive = Some False\<rparr>"
    by (simp add: explicit_options_def)
  have s: "slicing eng text searchWords (Some (Options opts)) =
      slicing eng text searchWords (Some (Options (explicit_options opts)))" for opts
    by (simp add: slicing_def options_match_explicit)
  have t: "sliceText eng text searchWords (Some (Options opts)) =
      sliceText eng text searchWords (Some (Options (explicit_options opts)))" for opts
    by (simp add: sliceText_def s[symmetric])
  have d: "slicing eng text searchWords None =
      slicing eng text searchWords (Some (Options default_options))"
    by (simp add: slicing_def)
  have d': "sliceText eng text searchWords None =
      sliceText eng text searchWords (Some (Options default_options))"
    by (simp add: sliceText_def d)
  from s1 s2[unfolded m] s3 c[of "Some (Options opts)"] c[of None]
    d d' dm[of word] s[of opts] t[of opts]
    s[of "\<lparr>escape = None, boundary = None, caseSensitive = None\<rparr>"]
    t[of "\<lparr>escape = None, boundary = None, caseSensitive = None\<rparr>"] em[of word]
  show ?thesis unfolding ex default_options_def by (intro conjI)
qed

section \<open>The facade is a composition\<close>

text \<open>
  C1. For every text, term list and options value (omitted, a configuration object or a
  matcher factory), \<open>sliceText\<close> is \<open>fillSliceGaps (mergeOverlap raw) (length text)\<close>
  for the result \<open>raw\<close> of \<open>slicing\<close> on the same arguments, and it throws or fails
  to return exactly when \<open>slicing\<close> does: it has no behaviour of its own.
\<close>

theorem sliceText_composition:
  "sliceText eng text searchWords opt =
     map_option (map_sum id (\<lambda>slices. fillSliceGaps (mergeOverlap slices) (int (length text))))
       (slicing eng text searchWords opt)"
  by (simp add: sliceText_def split: option.splits sum.splits)

section \<open>The gap filler partitions the text\<close>

lemma tiles_append: "tiles a xs b \<Longrightarrow> tiles b ys c \<Longrightarrow> tiles a (xs @ ys) c"
  by (induction xs arbitrary: a) auto

lemma tiles_push: "tiles a ms b \<Longrightarrow> b \<le> e \<Longrightarrow> tiles a (push ms b e m) e"
  by (auto simp: push_def intro: tiles_append)

lemma tiles_fill_step:
  "tiles a ms si \<Longrightarrow> si \<le> start sl \<Longrightarrow> start sl \<le> end' sl \<Longrightarrow>
   fill_step sl (ms, si) = (ms', si') \<Longrightarrow> tiles a ms' si' \<and> si' = end' sl"
  by (auto simp: fill_step_def intro!: tiles_push)

lemma tiles_fold:
  "tiles a ms si \<Longrightarrow> sorted_wrt (\<lambda>a b. end' a \<le> start b) spans \<Longrightarrow>
   \<forall>s \<in> set spans. si \<le> start s \<and> start s \<le> end' s \<and> end' s \<le> n \<Longrightarrow> si \<le> n \<Longrightarrow>
   fold fill_step spans (ms, si) = (ms', si') \<Longrightarrow> tiles a ms' si' \<and> si' \<le> n"
proof (induction spans arbitrary: ms si)
  case Nil
  then show ?case by simp
next
  case (Cons sl spans)
  obtain m1 s1 where st: "fill_step sl (ms, si) = (m1, s1)" by (cases "fill_step sl (ms, si)")
  from Cons.prems st have t1: "tiles a m1 s1" and s1: "s1 = end' sl"
    using tiles_fill_step[of a ms si sl m1 s1] by auto
  have "tiles a ms' si' \<and> si' \<le> n"
  proof (rule Cons.IH[OF t1])
    show "sorted_wrt (\<lambda>a b. end' a \<le> start b) spans" using Cons.prems(2) by simp
    show "\<forall>s\<in>set spans. s1 \<le> start s \<and> start s \<le> end' s \<and> end' s \<le> n"
      using Cons.prems(2,3) s1 by auto
    show "s1 \<le> n" using Cons.prems(3) s1 by simp
    show "fold fill_step spans (m1, s1) = (ms', si')" using Cons.prems(5) st by simp
  qed
  then show ?case .
qed

lemma tiles_fillSliceGaps:
  assumes "0 < n" "sorted_disjoint_within spans n"
  shows "tiles 0 (fillSliceGaps spans n) n"
proof (cases "spans = []")
  case True
  then show ?thesis using assms by (simp add: fillSliceGaps_def push_def)
next
  case False
  obtain ms si where f: "fold fill_step spans ([], 0) = (ms, si)"
    by (cases "fold fill_step spans ([], 0)")
  have "tiles 0 ms si \<and> si \<le> n"
    by (rule tiles_fold[where ms="[]" and si=0 and spans=spans])
       (use assms f in \<open>auto simp: sorted_disjoint_within_def\<close>)
  then show ?thesis using False assms f by (simp add: fillSliceGaps_def tiles_push)
qed

lemma tiles_sum: "tiles a xs b \<Longrightarrow> (\<Sum>s\<leftarrow>xs. end' s - start s) = b - a"
  by (induction xs arbitrary: a) auto

lemma tiles_contiguous: "tiles a xs b \<Longrightarrow> successively (\<lambda>s t. end' s = start t) xs"
  by (induction xs arbitrary: a rule: induct_list012) auto

text \<open>
  C3. \<open>fillSliceGaps\<close> returns the empty list for \<open>textLength = 0\<close>, whatever
  the spans; for no spans and \<open>textLength > 0\<close> it returns the single unmatched slice
  from 0 to \<open>textLength\<close>; and for \<open>textLength > 0\<close> and spans that are sorted, do
  not overlap and lie within the text, the lengths of the output slices sum to
  \<open>textLength\<close> and each output slice ends where the next one starts.
\<close>

theorem fillSliceGaps_total_partition:
  "fillSliceGaps spans 0 = [] \<and>
   (0 < n \<longrightarrow> fillSliceGaps [] n = [\<lparr>start = 0, end' = n, matched = Some False\<rparr>]) \<and>
   (0 < n \<and> sorted_disjoint_within spans n \<longrightarrow>
      (\<Sum>s\<leftarrow>fillSliceGaps spans n. end' s - start s) = n \<and>
      (\<forall>i. Suc i < length (fillSliceGaps spans n) \<longrightarrow>
            end' (fillSliceGaps spans n ! i) = start (fillSliceGaps spans n ! Suc i)))"
proof (intro conjI impI)
  show "fillSliceGaps spans 0 = []" by (simp add: fillSliceGaps_def)
next
  assume "0 < n"
  then show "fillSliceGaps [] n = [\<lparr>start = 0, end' = n, matched = Some False\<rparr>]"
    by (simp add: fillSliceGaps_def push_def)
next
  assume a: "0 < n \<and> sorted_disjoint_within spans n"
  then have t: "tiles 0 (fillSliceGaps spans n) n" by (simp add: tiles_fillSliceGaps)
  from tiles_sum[OF t] show "(\<Sum>s\<leftarrow>fillSliceGaps spans n. end' s - start s) = n" by simp
  from tiles_contiguous[OF t]
  show "\<forall>i. Suc i < length (fillSliceGaps spans n) \<longrightarrow>
            end' (fillSliceGaps spans n ! i) = start (fillSliceGaps spans n ! Suc i)"
    by (simp add: successively_conv_nth)
qed

theorem fillSliceGaps_total_partition_witness:
  "fillSliceGaps [\<lparr>start = 5, end' = 10, matched = None\<rparr>, \<lparr>start = 15, end' = 20, matched = None\<rparr>] 0 = [] \<and>
   fillSliceGaps [] 25 = [\<lparr>start = 0, end' = 25, matched = Some False\<rparr>] \<and>
   sorted_disjoint_within [\<lparr>start = 5, end' = 10, matched = None\<rparr>, \<lparr>start = 15, end' = 20, matched = None\<rparr>] 25 \<and>
   (\<Sum>s\<leftarrow>fillSliceGaps [\<lparr>start = 5, end' = 10, matched = None\<rparr>, \<lparr>start = 15, end' = 20, matched = None\<rparr>] 25. end' s - start s) = 25 \<and>
   fillSliceGaps [\<lparr>start = 5, end' = 10, matched = None\<rparr>, \<lparr>start = 15, end' = 20, matched = None\<rparr>] 25 =
     [\<lparr>start = 0, end' = 5, matched = Some False\<rparr>, \<lparr>start = 5, end' = 10, matched = Some True\<rparr>,
      \<lparr>start = 10, end' = 15, matched = Some False\<rparr>, \<lparr>start = 15, end' = 20, matched = Some True\<rparr>,
      \<lparr>start = 20, end' = 25, matched = Some False\<rparr>]"
proof -
  let ?sp = "[\<lparr>start = 5, end' = 10, matched = None\<rparr>, \<lparr>start = 15, end' = 20, matched = None\<rparr>]"
  have h: "sorted_disjoint_within ?sp 25" by (simp add: sorted_disjoint_within_def)
  have v: "fillSliceGaps ?sp 25 =
     [\<lparr>start = 0, end' = 5, matched = Some False\<rparr>, \<lparr>start = 5, end' = 10, matched = Some True\<rparr>,
      \<lparr>start = 10, end' = 15, matched = Some False\<rparr>, \<lparr>start = 15, end' = 20, matched = Some True\<rparr>,
      \<lparr>start = 20, end' = 25, matched = Some False\<rparr>]"
    by (simp add: fillSliceGaps_def fill_step_def push_def)
  from fillSliceGaps_total_partition[of ?sp 25] h v show ?thesis by simp
qed

section \<open>The merger sorts and coalesces\<close>

lemma merge_loop_spans:
  "map span_of (merge_loop c xs merged) =
     map span_of merged @ coalesce_spec (span_of c) (map span_of xs)"
  by (induction c xs merged rule: merge_loop.induct) (simp_all add: span_of_def)

lemma insort_key_span_of:
  "map span_of (insort_key start x xs) = insort_key fst (span_of x) (map span_of xs)"
  by (induction xs) (simp_all add: span_of_def)

lemma sort_key_span_of:
  "map span_of (sort_key start xs) = sort_key fst (map span_of xs)"
  by (induction xs) (simp_all add: insort_key_span_of)

lemma mergeOverlap_spans: "map span_of (mergeOverlap xs) = merge_spec (map span_of xs)"
proof (cases "sort_key start xs")
  case Nil
  then have "xs = []" by (metis length_sort list.size(3) length_0_conv)
  then show ?thesis by (simp add: mergeOverlap_def merge_spec_def)
next
  case (Cons c rest)
  then have ne: "xs \<noteq> []" by auto
  from Cons have "sort_key fst (map span_of xs) = span_of c # map span_of rest"
    by (simp flip: sort_key_span_of)
  then show ?thesis using Cons ne
    by (simp add: mergeOverlap_def merge_spec_def merge_loop_spans)
qed

text \<open>
  C4. On the ranges of the slices, \<open>mergeOverlap\<close> is the sort by \<open>start\<close> followed
  by the greedy coalescing of the specification (a span with \<open>start \<le>\<close> the end of the
  accumulator extends it to the maximum of the two ends, so adjacent spans merge; any
  other span flushes it; the last accumulator is flushed); the empty input gives the
  empty output; and the three spans \<open>{0,5}, {3,8}, {10,15}\<close> give \<open>{0,8}, {10,15}\<close>.
\<close>

theorem mergeOverlap_sorts_and_coalesces:
  "map span_of (mergeOverlap slices) = merge_spec (map span_of slices) \<and>
   mergeOverlap [] = [] \<and>
   mergeOverlap [\<lparr>start = 0, end' = 5, matched = None\<rparr>, \<lparr>start = 3, end' = 8, matched = None\<rparr>,
                 \<lparr>start = 10, end' = 15, matched = None\<rparr>] =
     [\<lparr>start = 0, end' = 8, matched = None\<rparr>, \<lparr>start = 10, end' = 15, matched = None\<rparr>]"
  by (simp add: mergeOverlap_spans) (simp add: mergeOverlap_def)

section \<open>The merger: invariants, idempotence, independence of order\<close>

lemma merge_loop_fold: "merge_loop c xs m = flush (fold merge_step xs (m, Some c))"
  by (induction c xs m rule: merge_loop.induct) simp_all

lemma mergeOverlap_fold: "mergeOverlap xs = flush (fold merge_step (sort_key start xs) ([], None))"
proof (cases "sort_key start xs")
  case Nil
  then have "xs = []" by (metis length_sort list.size(3) length_0_conv)
  then show ?thesis by (simp add: mergeOverlap_def)
next
  case (Cons c rest)
  then have "xs \<noteq> []" by auto
  with Cons show ?thesis by (simp add: mergeOverlap_def merge_loop_fold)
qed

lemma merge_loop_preserves:
  assumes step: "\<And>a b. P a \<Longrightarrow> P b \<Longrightarrow>
            P \<lparr>start = start a, end' = max (end' a) (end' b), matched = None\<rparr>"
  shows "P c \<Longrightarrow> \<forall>s \<in> set xs. P s \<Longrightarrow> \<forall>s \<in> set m. P s \<Longrightarrow>
         \<forall>s \<in> set (merge_loop c xs m). P s"
proof (induction c xs m rule: merge_loop.induct)
  case (1 current merged)
  then show ?case by simp
next
  case (2 current nxt rest merged)
  show ?case
  proof (cases "start nxt \<le> end' current")
    case True
    have "P \<lparr>start = start current, end' = max (end' current) (end' nxt), matched = None\<rparr>"
      using 2(3,4) by (intro step) simp_all
    with 2(1)[OF True] 2(4,5) True show ?thesis by simp
  next
    case False
    with 2(2)[OF False] 2(3,4,5) show ?thesis by simp
  qed
qed

lemma mergeOverlap_preserves:
  assumes "\<And>a b. P a \<Longrightarrow> P b \<Longrightarrow>
            P \<lparr>start = start a, end' = max (end' a) (end' b), matched = None\<rparr>"
    and "\<forall>s \<in> set xs. P s"
  shows "\<forall>s \<in> set (mergeOverlap xs). P s"
proof (cases "sort_key start xs")
  case Nil
  then have "xs = []" by (metis length_sort list.size(3) length_0_conv)
  then show ?thesis by (simp add: mergeOverlap_def)
next
  case (Cons c rest)
  then have ne: "xs \<noteq> []" by auto
  have "set (c # rest) = set xs" unfolding Cons[symmetric] by simp
  with assms(2) have "P c" "\<forall>s \<in> set rest. P s" by auto
  then have "\<forall>s \<in> set (merge_loop c rest []). P s"
    by (intro merge_loop_preserves[where P = P] assms(1)) simp_all
  with Cons ne show ?thesis by (simp add: mergeOverlap_def)
qed

lemma merge_loop_apart:
  "sorted (map start (c # xs)) \<Longrightarrow> \<forall>s \<in> set (c # xs). start s \<le> end' s \<Longrightarrow>
   sorted_wrt apart m \<Longrightarrow> \<forall>a \<in> set m. end' a < start c \<Longrightarrow>
   sorted_wrt apart (merge_loop c xs m)"
proof (induction c xs m rule: merge_loop.induct)
  case (1 current merged)
  then show ?case by (simp add: sorted_wrt_append)
next
  case (2 current nxt rest merged)
  show ?case
  proof (cases "start nxt \<le> end' current")
    case True
    let ?c = "\<lparr>start = start current, end' = max (end' current) (end' nxt), matched = None\<rparr>"
    have "sorted_wrt apart (merge_loop ?c rest merged)"
      using 2(3,4,5,6) by (intro 2(1)[OF True]) auto
    with True show ?thesis by simp
  next
    case False
    have "sorted_wrt apart (merge_loop nxt rest (merged @ [current]))"
      using 2(3,4,5,6) False by (intro 2(2)[OF False]) (auto simp: sorted_wrt_append)
    with False show ?thesis by simp
  qed
qed

lemma mergeOverlap_apart:
  assumes "\<forall>s \<in> set xs. start s \<le> end' s"
  shows "sorted_wrt apart (mergeOverlap xs)"
proof (cases "sort_key start xs")
  case Nil
  then have "xs = []" by (metis length_sort list.size(3) length_0_conv)
  then show ?thesis by (simp add: mergeOverlap_def)
next
  case (Cons c rest)
  then have ne: "xs \<noteq> []" by auto
  have s: "sorted (map start (c # rest))" unfolding Cons[symmetric] by simp
  have "set (c # rest) = set xs" unfolding Cons[symmetric] by simp
  with assms have "\<forall>s \<in> set (c # rest). start s \<le> end' s" by blast
  with s have "sorted_wrt apart (merge_loop c rest [])"
    by (intro merge_loop_apart) simp_all
  with Cons ne show ?thesis by (simp add: mergeOverlap_def)
qed

lemma mergeOverlap_wellformed:
  "\<forall>s \<in> set xs. start s \<le> end' s \<Longrightarrow> \<forall>s \<in> set (mergeOverlap xs). start s \<le> end' s"
  by (rule mergeOverlap_preserves) auto

lemma merge_loop_apart_id: "sorted_wrt apart (c # xs) \<Longrightarrow> merge_loop c xs m = m @ c # xs"
  by (induction xs arbitrary: c m) auto

lemma mergeOverlap_apart_id:
  assumes "sorted_wrt apart xs" "\<forall>s \<in> set xs. start s \<le> end' s"
  shows "mergeOverlap xs = xs"
proof (cases xs)
  case Nil
  then show ?thesis by (simp add: mergeOverlap_def)
next
  case (Cons c rest)
  have "sorted_wrt (\<lambda>a b. start a \<le> start b) xs"
    using assms by (intro sorted_wrt_mono_rel[OF _ assms(1)]) force
  then have "sorted (map start xs)" by (simp add: sorted_map)
  then have "sort_key start xs = xs" by (rule sort_key_id_if_sorted)
  with Cons assms(1) show ?thesis by (simp add: mergeOverlap_def merge_loop_apart_id)
qed

lemma mergeOverlap_idem:
  "\<forall>s \<in> set xs. start s \<le> end' s \<Longrightarrow> mergeOverlap (mergeOverlap xs) = mergeOverlap xs"
  by (intro mergeOverlap_apart_id mergeOverlap_apart mergeOverlap_wellformed)

lemma merge_step_commute:
  "start a = start b \<Longrightarrow> start a \<le> end' a \<Longrightarrow> start b \<le> end' b \<Longrightarrow>
   merge_step a (merge_step b st) = merge_step b (merge_step a st)"
  by (cases st; cases "snd st") (auto simp: max.commute max.left_commute max.assoc)

lemma fold_commute_one:
  "\<forall>z \<in> set zs. \<forall>st. f x (f z st) = f z (f x st) \<Longrightarrow> f x (fold f zs st) = fold f zs (f x st)"
  by (induction zs arbitrary: st) simp_all

lemma fold_merge_step_perm:
  "sorted (map start xs) \<Longrightarrow> sorted (map start ys) \<Longrightarrow> mset xs = mset ys \<Longrightarrow>
   \<forall>s \<in> set xs. start s \<le> end' s \<Longrightarrow>
   fold merge_step xs st = fold merge_step ys st"
proof (induction xs arbitrary: ys st)
  case Nil
  then show ?case by simp
next
  case (Cons x xs)
  from Cons.prems(3) have "x \<in> set ys" by (metis list.set_intros(1) mset_eq_setD)
  then obtain ys1 ys2 where ys: "ys = ys1 @ x # ys2" by (meson split_list)
  have set_eq: "set ys = set (x # xs)" using Cons.prems(3) by (metis mset_eq_setD)
  have same: "start z = start x" if "z \<in> set ys1" for z
  proof -
    from that ys Cons.prems(2) have "start z \<le> start x"
      by (auto simp: sorted_append)
    moreover from that ys set_eq Cons.prems(1) have "start x \<le> start z" by auto
    ultimately show ?thesis by simp
  qed
  have wf: "start z \<le> end' z" if "z \<in> set ys" for z
    using that set_eq Cons.prems(4) by blast
  have "fold merge_step ys st = fold merge_step ys2 (merge_step x (fold merge_step ys1 st))"
    by (simp add: ys)
  also have "merge_step x (fold merge_step ys1 st) = fold merge_step ys1 (merge_step x st)"
  proof (rule fold_commute_one, intro ballI allI)
    fix z st' assume "z \<in> set ys1"
    then show "merge_step x (merge_step z st') = merge_step z (merge_step x st')"
      using same[of z] wf[of z] wf[of x] ys by (intro merge_step_commute) auto
  qed
  also have "fold merge_step ys2 (fold merge_step ys1 (merge_step x st)) =
             fold merge_step (ys1 @ ys2) (merge_step x st)" by simp
  also have "\<dots> = fold merge_step xs (merge_step x st)"
  proof (rule Cons.IH[symmetric])
    show "sorted (map start xs)" using Cons.prems(1) by simp
    show "sorted (map start (ys1 @ ys2))" using Cons.prems(2) ys by (auto simp: sorted_append)
    show "mset xs = mset (ys1 @ ys2)" using Cons.prems(3) ys by simp
    show "\<forall>s \<in> set xs. start s \<le> end' s" using Cons.prems(4) by simp
  qed
  finally show ?case by simp
qed

lemma mergeOverlap_perm:
  assumes "mset xs = mset ys" "\<forall>s \<in> set xs. start s \<le> end' s"
  shows "mergeOverlap xs = mergeOverlap ys"
proof -
  have "fold merge_step (sort_key start xs) st = fold merge_step (sort_key start ys) st" for st
    using assms by (intro fold_merge_step_perm) simp_all
  then show ?thesis by (simp add: mergeOverlap_fold)
qed

lemma merge_step_idem:
  "start d \<le> end' d \<Longrightarrow> matched d = None \<Longrightarrow>
   merge_step d (merge_step d st) = merge_step d st"
  by (cases st; cases "snd st") auto

lemma mergeOverlap_dup:
  assumes "d \<in> set xs" "\<forall>s \<in> set xs. start s \<le> end' s" "matched d = None"
  shows "mergeOverlap (d # xs) = mergeOverlap xs"
proof -
  let ?S = "sort_key start xs"
  from assms(1) have "d \<in> set ?S" by simp
  then obtain pre post where S: "?S = pre @ d # post" by (meson split_list)
  have sS: "sorted (map start ?S)" by simp
  have sd: "sorted (map start (pre @ d # d # post))"
    using sS unfolding S by (auto simp: sorted_append)
  have wfd: "start d \<le> end' d" using assms by blast
  have "fold merge_step (sort_key start (d # xs)) st = fold merge_step (pre @ d # d # post) st" for st
  proof (rule fold_merge_step_perm)
    show "sorted (map start (sort_key start (d # xs)))" by (rule sorted_sort_key)
    show "sorted (map start (pre @ d # d # post))" by (rule sd)
    have "mset (pre @ d # post) = mset xs" unfolding S[symmetric] by simp
    then show "mset (sort_key start (d # xs)) = mset (pre @ d # d # post)" by simp
    have "set (sort_key start (d # xs)) = set xs"
      using assms(1) unfolding set_sort by auto
    then show "\<forall>s \<in> set (sort_key start (d # xs)). start s \<le> end' s"
      using assms(2) by blast
  qed
  also have "fold merge_step (pre @ d # d # post) st = fold merge_step ?S st" for st
    unfolding S by (simp add: merge_step_idem[OF wfd assms(3)])
  finally show ?thesis by (simp add: mergeOverlap_fold)
qed

lemma mergeOverlap_dups:
  assumes "set ds \<subseteq> set xs" "\<forall>s \<in> set xs. start s \<le> end' s" "\<forall>s \<in> set xs. matched s = None"
  shows "mergeOverlap (xs @ ds) = mergeOverlap xs"
  using assms(1)
proof (induction ds)
  case Nil
  then show ?case by simp
next
  case (Cons d ds)
  have wf: "\<forall>s \<in> set (xs @ ds). start s \<le> end' s" using Cons.prems assms(2) by auto
  have "mergeOverlap (xs @ d # ds) = mergeOverlap (d # (xs @ ds))"
    using Cons.prems assms(2) by (intro mergeOverlap_perm) auto
  also have "\<dots> = mergeOverlap (xs @ ds)"
    using Cons.prems assms(3) wf by (intro mergeOverlap_dup) auto
  also have "\<dots> = mergeOverlap xs" using Cons by simp
  finally show ?case .
qed

lemma mergeOverlap_unflag_spans:
  "map span_of (mergeOverlap (map unflag xs)) = map span_of (mergeOverlap xs)"
proof -
  have "map span_of (map unflag xs) = map span_of xs"
    by (simp add: span_of_def unflag_def)
  then show ?thesis by (simp only: mergeOverlap_spans)
qed

lemma mergeOverlap_dups_spans:
  assumes "set ds \<subseteq> set xs" "\<forall>s \<in> set xs. start s \<le> end' s"
  shows "map span_of (mergeOverlap (xs @ ds)) = map span_of (mergeOverlap xs)"
proof -
  have "mergeOverlap (map unflag xs @ map unflag ds) = mergeOverlap (map unflag xs)"
    using assms by (intro mergeOverlap_dups) (auto simp: unflag_def)
  then have "map span_of (mergeOverlap (map unflag (xs @ ds))) = map span_of (mergeOverlap (map unflag xs))"
    by simp
  then show ?thesis by (simp only: mergeOverlap_unflag_spans)
qed

text \<open>
  C5 claims that duplicating an input span never changes the result of \<open>mergeOverlap\<close>.
  A lone span is returned as it is, with its \<open>matched\<close> property; the same span given
  twice is coalesced into a fresh span that has no such property.
\<close>

theorem mergeOverlap_duplicate_counterexample:
  "mergeOverlap [\<lparr>start = 0, end' = 5, matched = Some True\<rparr>] =
     [\<lparr>start = 0, end' = 5, matched = Some True\<rparr>] \<and>
   mergeOverlap [\<lparr>start = 0, end' = 5, matched = Some True\<rparr>,
                 \<lparr>start = 0, end' = 5, matched = Some True\<rparr>] =
     [\<lparr>start = 0, end' = 5, matched = None\<rparr>] \<and>
   mergeOverlap [\<lparr>start = 0, end' = 5, matched = Some True\<rparr>,
                 \<lparr>start = 0, end' = 5, matched = Some True\<rparr>] \<noteq>
     mergeOverlap [\<lparr>start = 0, end' = 5, matched = Some True\<rparr>]"
  by (simp add: mergeOverlap_def)

text \<open>
  C5, amended. For spans with \<open>start \<le> end\<close>: merging the result of \<open>mergeOverlap\<close>
  again changes nothing; the result is the same for every permutation of the input; and
  adding further copies of input spans leaves the \<open>start\<close>/\<open>end\<close> ranges of the result
  unchanged, and the whole result unchanged when no input span carries a \<open>matched\<close>
  property.
\<close>

theorem mergeOverlap_idempotent_commutative:
  "(\<forall>s \<in> set S. start s \<le> end' s) \<longrightarrow>
     mergeOverlap (mergeOverlap S) = mergeOverlap S \<and>
     (\<forall>T. mset T = mset S \<longrightarrow> mergeOverlap T = mergeOverlap S) \<and>
     (\<forall>D. set D \<subseteq> set S \<longrightarrow>
        map span_of (mergeOverlap (S @ D)) = map span_of (mergeOverlap S) \<and>
        ((\<forall>s \<in> set S. matched s = None) \<longrightarrow> mergeOverlap (S @ D) = mergeOverlap S))"
proof (intro impI conjI allI)
  assume wf: "\<forall>s \<in> set S. start s \<le> end' s"
  then show "mergeOverlap (mergeOverlap S) = mergeOverlap S" by (rule mergeOverlap_idem)
  fix T assume "mset T = mset S"
  then show "mergeOverlap T = mergeOverlap S"
    using wf by (intro mergeOverlap_perm[symmetric]) simp_all
next
  fix D assume wf: "\<forall>s \<in> set S. start s \<le> end' s" and D: "set D \<subseteq> set S"
  then show "map span_of (mergeOverlap (S @ D)) = map span_of (mergeOverlap S)"
    by (intro mergeOverlap_dups_spans)
  assume "\<forall>s \<in> set S. matched s = None"
  with wf D show "mergeOverlap (S @ D) = mergeOverlap S" by (intro mergeOverlap_dups)
qed

theorem mergeOverlap_idempotent_commutative_witness:
  "list_all (\<lambda>s. start s \<le> end' s \<and> matched s = None)
     [\<lparr>start = 3, end' = 8, matched = None\<rparr>, \<lparr>start = 10, end' = 15, matched = None\<rparr>,
      \<lparr>start = 0, end' = 5, matched = None\<rparr>] \<and>
   mergeOverlap [\<lparr>start = 3, end' = 8, matched = None\<rparr>, \<lparr>start = 10, end' = 15, matched = None\<rparr>,
                 \<lparr>start = 0, end' = 5, matched = None\<rparr>] =
     [\<lparr>start = 0, end' = 8, matched = None\<rparr>, \<lparr>start = 10, end' = 15, matched = None\<rparr>] \<and>
   mergeOverlap (mergeOverlap [\<lparr>start = 3, end' = 8, matched = None\<rparr>,
                 \<lparr>start = 10, end' = 15, matched = None\<rparr>, \<lparr>start = 0, end' = 5, matched = None\<rparr>]) =
     [\<lparr>start = 0, end' = 8, matched = None\<rparr>, \<lparr>start = 10, end' = 15, matched = None\<rparr>] \<and>
   mergeOverlap [\<lparr>start = 0, end' = 5, matched = None\<rparr>, \<lparr>start = 3, end' = 8, matched = None\<rparr>,
                 \<lparr>start = 10, end' = 15, matched = None\<rparr>] =
     [\<lparr>start = 0, end' = 8, matched = None\<rparr>, \<lparr>start = 10, end' = 15, matched = None\<rparr>] \<and>
   mergeOverlap ([\<lparr>start = 3, end' = 8, matched = None\<rparr>, \<lparr>start = 10, end' = 15, matched = None\<rparr>,
                  \<lparr>start = 0, end' = 5, matched = None\<rparr>] @ [\<lparr>start = 3, end' = 8, matched = None\<rparr>]) =
     [\<lparr>start = 0, end' = 8, matched = None\<rparr>, \<lparr>start = 10, end' = 15, matched = None\<rparr>]"
proof -
  let ?S = "[\<lparr>start = 3, end' = 8, matched = None\<rparr>, \<lparr>start = 10, end' = 15, matched = None\<rparr>,
             \<lparr>start = 0, end' = 5, matched = None\<rparr>]"
  let ?T = "[\<lparr>start = 0, end' = 5, matched = None\<rparr>, \<lparr>start = 3, end' = 8, matched = None\<rparr>,
             \<lparr>start = 10, end' = 15, matched = None\<rparr>]"
  let ?D = "[\<lparr>start = 3, end' = 8, matched = None\<rparr>]"
  have h: "\<forall>s \<in> set ?S. start s \<le> end' s \<and> matched s = None" by simp
  have la: "list_all (\<lambda>s. start s \<le> end' s \<and> matched s = None) ?S" by simp
  have v: "mergeOverlap ?S =
     [\<lparr>start = 0, end' = 8, matched = None\<rparr>, \<lparr>start = 10, end' = 15, matched = None\<rparr>]"
    by (simp add: mergeOverlap_def)
  have p: "mset ?T = mset ?S" by simp
  have d: "set ?D \<subseteq> set ?S" by simp
  from mergeOverlap_idempotent_commutative[of ?S] h
  have i: "mergeOverlap (mergeOverlap ?S) = mergeOverlap ?S"
    and pp: "mset ?T = mset ?S \<longrightarrow> mergeOverlap ?T = mergeOverlap ?S"
    and dd: "set ?D \<subseteq> set ?S \<longrightarrow> mergeOverlap (?S @ ?D) = mergeOverlap ?S"
    by blast+
  from pp p have p': "mergeOverlap ?T = mergeOverlap ?S" by (rule mp)
  from dd d have d': "mergeOverlap (?S @ ?D) = mergeOverlap ?S" by (rule mp)
  let ?R = "[\<lparr>start = 0, end' = 8, matched = None\<rparr>, \<lparr>start = 10, end' = 15, matched = None\<rparr>]"
  from i v have i': "mergeOverlap (mergeOverlap ?S) = ?R" by (rule trans)
  from p' v have p'': "mergeOverlap ?T = ?R" by (rule trans)
  from d' v have d'': "mergeOverlap (?S @ ?D) = ?R" by (rule trans)
  from la v i' p'' d'' show ?thesis by (intro conjI)
qed

section \<open>The scanner: termination and output\<close>

lemma literal_search_Some:
  assumes "search literal_engine pat fl text i = Some (s, n)"
  shows "i \<le> s \<and> s + n \<le> length text"
proof -
  from assms obtain rest where
    f: "filter (\<lambda>j. take (length pat) (drop j text) = pat) [i..<Suc (length text)] = s # rest"
    and n: "n = length pat"
    by (auto simp: literal_engine_def split: list.splits)
  have "s \<in> set (filter (\<lambda>j. take (length pat) (drop j text) = pat) [i..<Suc (length text)])"
    unfolding f by simp
  then have s: "i \<le> s" "s \<le> length text" and t: "take (length pat) (drop s text) = pat"
    by auto
  from t have "length (take (length pat) (drop s text)) = length pat" by simp
  with s have "s + length pat \<le> length text" by simp
  with s n show ?thesis by simp
qed

lemma literal_engine_forward: "finds_forward literal_engine text"
  unfolding finds_forward_def using literal_search_Some by blast

lemma literal_engine_within: "finds_within literal_engine text"
  unfolding finds_within_def using literal_search_Some by blast

lemma exec_cases:
  obtains (null) r' where "exec eng r text = (None, r')"
  | (found) s e n where
      "exec eng r text = (Some (s, e), if tracked r then r\<lparr>lastIndex := e\<rparr> else r)"
      and "search eng (source r) (flags r) text (if tracked r then lastIndex r else 0) = Some (s, n)"
      and "e = s + n"
      and "(if tracked r then lastIndex r else 0) \<le> length text"
proof (cases "length text < (if tracked r then lastIndex r else 0)")
  case True
  then have "exec eng r text = (None, if tracked r then r\<lparr>lastIndex := 0\<rparr> else r)"
    by (simp add: exec_def Let_def)
  then show ?thesis by (rule null)
next
  case False
  show ?thesis
  proof (cases "search eng (source r) (flags r) text (if tracked r then lastIndex r else 0)")
    case None
    with False have "exec eng r text = (None, if tracked r then r\<lparr>lastIndex := 0\<rparr> else r)"
      by (simp add: exec_def Let_def)
    then show ?thesis by (rule null)
  next
    case (Some m)
    obtain s n where m: "m = (s, n)" by (cases m)
    from False Some m
    have "exec eng r text =
      (Some (s, s + n), if tracked r then r\<lparr>lastIndex := s + n\<rparr> else r)"
      by (simp add: exec_def Let_def)
    then show ?thesis using Some m False by (intro found[of s "s + n" n]) simp_all
  qed
qed

lemma scan_loop_zero_width:
  "exec eng regex text = (Some (s, e), regex') \<Longrightarrow> lastIndex regex' = s \<Longrightarrow>
   scan_loop eng regex text slices = scan_loop eng (regex'\<lparr>lastIndex := s + 1\<rparr>) text slices"
  by (subst scan_loop.simps) simp

lemma scan_loop_returns:
  assumes "tracked r" "finds_forward eng text"
  shows "\<exists>new. scan_loop eng r text slices = Some (slices @ new) \<and>
           (\<forall>s \<in> set new. 0 \<le> start s \<and> start s < end' s) \<and>
           (finds_within eng text \<longrightarrow> (\<forall>s \<in> set new. end' s \<le> int (length text)))"
  using assms(1)
proof (induction "Suc (length text) - lastIndex r" arbitrary: r slices rule: less_induct)
  case less
  show ?case
  proof (cases rule: exec_cases[of eng r "text"])
    case (null r')
    then show ?thesis by (subst scan_loop.simps) simp
  next
    case (found s e n)
    from found(2) less.prems assms(2) have "lastIndex r \<le> s"
      unfolding finds_forward_def by (metis (full_types))
    with found(3) have se: "lastIndex r \<le> s" "s \<le> e" by simp_all
    from found(4) less.prems have li: "lastIndex r \<le> length text" by simp
    let ?r'' = "r\<lparr>lastIndex := (if s = e then e + 1 else e)\<rparr>"
    let ?sl = "if s < e then slices @ [\<lparr>start = int s, end' = int e, matched = None\<rparr>] else slices"
    have step: "scan_loop eng r text slices = scan_loop eng ?r'' text ?sl"
      using found(1) less.prems by (subst scan_loop.simps) (simp add: Let_def)
    have tr: "tracked ?r''" using less.prems by (simp add: tracked_def)
    have dec: "Suc (length text) - lastIndex ?r'' < Suc (length text) - lastIndex r"
      using se li by auto
    from less.hyps[OF dec tr, of ?sl] obtain new where
      new: "scan_loop eng ?r'' text ?sl = Some (?sl @ new)"
        "\<forall>s \<in> set new. 0 \<le> start s \<and> start s < end' s"
        "finds_within eng text \<longrightarrow> (\<forall>s \<in> set new. end' s \<le> int (length text))"
      by blast
    have e_le: "finds_within eng text \<Longrightarrow> e \<le> length text"
      using found(2,3) unfolding finds_within_def by (metis (full_types))
    show ?thesis
    proof (cases "s < e")
      case True
      with step new e_le show ?thesis
        by (intro exI[of _ "\<lparr>start = int s, end' = int e, matched = None\<rparr> # new"]) auto
    next
      case False
      with step new show ?thesis by (intro exI[of _ new]) auto
    qed
  qed
qed

lemma scan_loop_partial:
  assumes "scan_loop eng r text slices = Some out"
  shows "\<exists>new. out = slices @ new \<and> (\<forall>s \<in> set new. start s < end' s)"
proof (rule scan_loop.raw_induct
    [where P = "\<lambda>_ _ _ sl res. \<exists>new. res = sl @ new \<and> (\<forall>s \<in> set new. start s < end' s)",
     OF _ assms], goal_cases)
  case (1 f eng regex tx slices out)
  show ?case
  proof (cases rule: exec_cases[of eng regex tx])
    case (null r')
    with 1(2) show ?thesis by simp
  next
    case (found s e n)
    let ?r' = "if tracked regex then regex\<lparr>lastIndex := e\<rparr> else regex"
    let ?sl = "if s < lastIndex ?r' then slices @ [\<lparr>start = int s, end' = int (lastIndex ?r'), matched = None\<rparr>] else slices"
    from 1(2) found(1) obtain r'' where "f eng r'' tx ?sl = Some out"
      by (simp add: Let_def split: if_splits)
    from 1(1)[OF this] obtain new where new: "out = ?sl @ new" "\<forall>s \<in> set new. start s < end' s"
      by blast
    show ?thesis
    proof (cases "s < lastIndex ?r'")
      case True
      with new show ?thesis
        by (intro exI[of _ "\<lparr>start = int s, end' = int (lastIndex ?r'), matched = None\<rparr> # new"]) auto
    next
      case False
      with new show ?thesis by (intro exI[of _ new]) auto
    qed
  qed
qed

lemma scan_words_returns:
  assumes "\<forall>w r. mtch w = Inr r \<longrightarrow> tracked r" "finds_forward eng text"
  shows "\<exists>res. scan_words eng mtch text ws slices = Some res"
proof (induction ws arbitrary: slices)
  case Nil
  then show ?case by simp
next
  case (Cons w ws)
  show ?case
  proof (cases "mtch w")
    case (Inl e)
    then show ?thesis by simp
  next
    case (Inr r)
    with assms(1) have "tracked r" by blast
    from scan_loop_returns[OF this assms(2), of slices] obtain new where
      "scan_loop eng r text slices = Some (slices @ new)" by blast
    with Inr Cons.IH[of "slices @ new"] show ?thesis by simp
  qed
qed

lemma scan_words_returns_slices:
  assumes "\<forall>w r. mtch w = Inr r \<longrightarrow> tracked r" "finds_forward eng text"
    and "\<forall>w \<in> set ws. \<exists>r. mtch w = Inr r"
  shows "\<exists>out. scan_words eng mtch text ws slices = Some (Inr out)"
  using assms(3)
proof (induction ws arbitrary: slices)
  case Nil
  then show ?case by simp
next
  case (Cons w ws)
  then obtain r where r: "mtch w = Inr r" by auto
  with assms(1) have "tracked r" by blast
  from scan_loop_returns[OF this assms(2), of slices] obtain new where
    "scan_loop eng r text slices = Some (slices @ new)" by blast
  with r Cons.IH[of "slices @ new"] Cons.prems show ?case by simp
qed

lemma scan_words_in_text:
  assumes "\<forall>w r. mtch w = Inr r \<longrightarrow> tracked r" "finds_forward eng text" "finds_within eng text"
  shows "scan_words eng mtch text ws slices = Some (Inr out) \<Longrightarrow>
         \<forall>s \<in> set slices. in_text text s \<Longrightarrow> \<forall>s \<in> set out. in_text text s"
proof (induction ws arbitrary: slices)
  case Nil
  then show ?case by simp
next
  case (Cons w ws)
  from Cons.prems(1) obtain r where r: "mtch w = Inr r" by (cases "mtch w") auto
  with assms(1) have "tracked r" by blast
  from scan_loop_returns[OF this assms(2), of slices] assms(3) obtain new where
    new: "scan_loop eng r text slices = Some (slices @ new)"
      "\<forall>s \<in> set new. 0 \<le> start s \<and> start s < end' s"
      "\<forall>s \<in> set new. end' s \<le> int (length text)"
    by blast
  from new(2,3) Cons.prems(2) have "\<forall>s \<in> set (slices @ new). in_text text s"
    by (auto simp: in_text_def)
  moreover from Cons.prems(1) r new(1)
  have "scan_words eng mtch text ws (slices @ new) = Some (Inr out)" by simp
  ultimately show ?case by (rule Cons.IH[rotated])
qed

lemma scan_words_positive:
  "scan_words eng mtch text ws slices = Some (Inr out) \<Longrightarrow>
   \<forall>s \<in> set slices. start s < end' s \<Longrightarrow> \<forall>s \<in> set out. start s < end' s"
proof (induction ws arbitrary: slices)
  case Nil
  then show ?case by simp
next
  case (Cons w ws)
  from Cons.prems(1) obtain r where r: "mtch w = Inr r" by (cases "mtch w") auto
  with Cons.prems(1) obtain mid where mid: "scan_loop eng r text slices = Some mid"
    "scan_words eng mtch text ws mid = Some (Inr out)"
    by (cases "scan_loop eng r text slices") auto
  from scan_loop_partial[OF mid(1)] Cons.prems(2) have "\<forall>s \<in> set mid. start s < end' s"
    by auto
  with mid(2) show ?case by (rule Cons.IH)
qed

lemma scan_loop_acc:
  assumes "scan_loop eng r text acc = Some out"
  shows "\<exists>new. out = acc @ new \<and> (\<forall>b. scan_loop eng r text b = Some (b @ new))"
proof (rule scan_loop.raw_induct
    [where P = "\<lambda>en re tx sl res. \<exists>new. res = sl @ new \<and> (\<forall>b. scan_loop en re tx b = Some (b @ new))",
     OF _ assms], goal_cases)
  case (1 f eng regex tx slices out)
  show ?case
  proof (cases rule: exec_cases[of eng regex tx])
    case (null r')
    with 1(2) have "out = slices" by simp
    moreover from null have "scan_loop eng regex tx b = Some b" for b
      by (subst scan_loop.simps) simp
    ultimately show ?thesis by (intro exI[of _ "[]"]) simp
  next
    case (found s e n)
    let ?r' = "if tracked regex then regex\<lparr>lastIndex := e\<rparr> else regex"
    let ?one = "\<lparr>start = int s, end' = int (lastIndex ?r'), matched = None\<rparr>"
    let ?add = "if s < lastIndex ?r' then [?one] else []"
    let ?r'' = "if s = lastIndex ?r' then ?r'\<lparr>lastIndex := lastIndex ?r' + 1\<rparr> else ?r'"
    from 1(2) found(1) have "f eng ?r'' tx (slices @ ?add) = Some out"
      by (simp add: Let_def split: if_splits)
    from 1(1)[OF this] obtain new where new: "out = (slices @ ?add) @ new"
      "\<forall>b. scan_loop eng ?r'' tx b = Some (b @ new)"
      by blast
    have "scan_loop eng regex tx b = Some (b @ ?add @ new)" for b
    proof -
      have "scan_loop eng regex tx b = scan_loop eng ?r'' tx (b @ ?add)"
        using found(1) by (subst scan_loop.simps) (simp add: Let_def)
      with new(2) show ?thesis by simp
    qed
    with new(1) show ?thesis by (intro exI[of _ "?add @ new"]) simp
  qed
qed

lemma scan_words_extends:
  "scan_words eng mtch text ws acc = Some (Inr out) \<Longrightarrow> \<exists>more. out = acc @ more"
proof (induction ws arbitrary: acc)
  case Nil
  then show ?case by simp
next
  case (Cons w ws)
  from Cons.prems obtain r where r: "mtch w = Inr r" by (cases "mtch w") auto
  with Cons.prems obtain mid where mid: "scan_loop eng r text acc = Some mid"
    "scan_words eng mtch text ws mid = Some (Inr out)"
    by (cases "scan_loop eng r text acc") auto
  from scan_loop_acc[OF mid(1)] obtain new where "mid = acc @ new" by blast
  moreover from Cons.IH[OF mid(2)] obtain more where "out = mid @ more" by blast
  ultimately show ?case by simp
qed

lemma scan_words_contains:
  "scan_words eng mtch text ws acc = Some (Inr out) \<Longrightarrow> w \<in> set ws \<Longrightarrow>
   \<exists>r occ pre post. mtch w = Inr r \<and> scan_loop eng r text [] = Some occ \<and> out = pre @ occ @ post"
proof (induction ws arbitrary: acc)
  case Nil
  then show ?case by simp
next
  case (Cons v ws)
  from Cons.prems(1) obtain r where r: "mtch v = Inr r" by (cases "mtch v") auto
  with Cons.prems(1) obtain mid where mid: "scan_loop eng r text acc = Some mid"
    "scan_words eng mtch text ws mid = Some (Inr out)"
    by (cases "scan_loop eng r text acc") auto
  show ?case
  proof (cases "w = v")
    case True
    from scan_loop_acc[OF mid(1)] obtain occ where occ: "mid = acc @ occ"
      "scan_loop eng r text [] = Some occ" by force
    from scan_words_extends[OF mid(2)] obtain more where "out = mid @ more" by blast
    with occ have "out = acc @ occ @ more" by simp
    with r occ(2) True show ?thesis by blast
  next
    case False
    with Cons.prems(2) have "w \<in> set ws" by simp
    from Cons.IH[OF mid(2) this] show ?thesis .
  qed
qed

lemma options_match_tracked: "options_match eng opts w = Inr r \<Longrightarrow> tracked r"
  by (auto simp: options_match_def new_RegExp_def options_flags_def tracked_def split: if_splits)

lemma slicing_positive:
  "slicing eng text searchWords opt = Some (Inr out) \<Longrightarrow> \<forall>s \<in> set out. start s < end' s"
  unfolding slicing_def Let_def by (erule scan_words_positive) simp

lemma slicing_options_returns:
  assumes "finds_forward eng text"
  shows "\<exists>res. slicing eng text searchWords (Some (Options opts)) = Some res"
  unfolding slicing_def Let_def
  using options_match_tracked assms by (auto intro!: scan_words_returns)

lemma slicing_default_returns:
  assumes "finds_forward eng text"
  shows "\<exists>res. slicing eng text searchWords None = Some res"
  unfolding slicing_def Let_def
  using options_match_tracked assms by (auto intro!: scan_words_returns)

lemma slicing_match_returns:
  assumes "finds_forward eng text" "\<forall>w r. mtch w = Inr r \<longrightarrow> tracked r"
  shows "\<exists>res. slicing eng text searchWords (Some (Match mtch)) = Some res"
  unfolding slicing_def Let_def
  using assms by (auto intro!: scan_words_returns)

text \<open>
  C6. When every occurrence the engine reports starts at or after the cursor, the loop of
  the scanner returns for every regular expression that keeps a cursor, and \<open>slicing\<close>
  returns or throws for every text and term list: with a matcher factory whose regular
  expressions keep a cursor, with a configuration object, and with no third argument.
  Whenever \<open>exec\<close> reports an occurrence of width zero
  (\<open>regex.lastIndex\<close> equals \<open>matched.index\<close>), the loop goes on with the same
  slices, so no span is emitted, and with the cursor moved one unit forward.
\<close>

theorem scan_loop_terminates:
  "(finds_forward eng text \<longrightarrow>
      (tracked regex \<longrightarrow> (\<exists>out. scan_loop eng regex text slices = Some out)) \<and>
      ((\<forall>word r. mtch word = Inr r \<longrightarrow> tracked r) \<longrightarrow>
         (\<exists>res. slicing eng text searchWords (Some (Match mtch)) = Some res)) \<and>
      (\<exists>res. slicing eng text searchWords (Some (Options opts)) = Some res) \<and>
      (\<exists>res. slicing eng text searchWords None = Some res)) \<and>
   (exec eng regex text = (Some (s, e), regex') \<and> lastIndex regex' = s \<longrightarrow>
      scan_loop eng regex text slices =
        scan_loop eng (regex'\<lparr>lastIndex := s + 1\<rparr>) text slices)"
proof (intro conjI impI)
  assume "finds_forward eng text" "tracked regex"
  from scan_loop_returns[OF this(2,1), of slices]
  show "\<exists>out. scan_loop eng regex text slices = Some out" by blast
next
  assume "finds_forward eng text" "\<forall>word r. mtch word = Inr r \<longrightarrow> tracked r"
  then show "\<exists>res. slicing eng text searchWords (Some (Match mtch)) = Some res"
    by (rule slicing_match_returns)
next
  assume "finds_forward eng text"
  then show "\<exists>res. slicing eng text searchWords (Some (Options opts)) = Some res"
    by (rule slicing_options_returns)
next
  assume "finds_forward eng text"
  then show "\<exists>res. slicing eng text searchWords None = Some res"
    by (rule slicing_default_returns)
next
  assume "exec eng regex text = (Some (s, e), regex') \<and> lastIndex regex' = s"
  then show "scan_loop eng regex text slices =
        scan_loop eng (regex'\<lparr>lastIndex := s + 1\<rparr>) text slices"
    by (intro scan_loop_zero_width[of eng regex "text" s e]) simp_all
qed

theorem scan_loop_terminates_witness:
  "finds_forward literal_engine (lit ''ab'') \<and>
   tracked \<lparr>source = [], flags = ''g'', lastIndex = 0\<rparr> \<and>
   exec literal_engine \<lparr>source = [], flags = ''g'', lastIndex = 0\<rparr> (lit ''ab'') =
     (Some (0, 0), \<lparr>source = [], flags = ''g'', lastIndex = 0\<rparr>) \<and>
   scan_loop literal_engine \<lparr>source = [], flags = ''g'', lastIndex = 0\<rparr> (lit ''ab'') [] =
     scan_loop literal_engine \<lparr>source = [], flags = ''g'', lastIndex = 1\<rparr> (lit ''ab'') [] \<and>
   (\<exists>out. scan_loop literal_engine \<lparr>source = [], flags = ''g'', lastIndex = 0\<rparr> (lit ''ab'') [] = Some out) \<and>
   (\<exists>res. slicing literal_engine (lit ''ab'') [lit ''b'']
            (Some (Match (\<lambda>word. new_RegExp literal_engine word ''g''))) = Some res) \<and>
   (\<exists>res. slicing literal_engine (lit ''ab'') [lit ''b''] None = Some res)"
proof -
  let ?r = "\<lparr>source = [], flags = ''g'', lastIndex = 0\<rparr>"
  have f: "finds_forward literal_engine (lit ''ab'')" by (rule literal_engine_forward)
  have t: "tracked ?r" by (simp add: tracked_def)
  have m: "\<forall>word r. new_RegExp literal_engine word ''g'' = Inr r \<longrightarrow> tracked r"
    by (auto simp: new_RegExp_def tracked_def)
  have x: "exec literal_engine ?r (lit ''ab'') = (Some (0, 0), ?r)"
    by (simp add: exec_def tracked_def literal_engine_def lit_def)
  note th = scan_loop_terminates[of literal_engine "lit ''ab''" ?r "[]"
        "\<lambda>word. new_RegExp literal_engine word ''g''" "[lit ''b'']" _ 0 0 ?r]
  from th f t
  have a: "\<exists>out. scan_loop literal_engine ?r (lit ''ab'') [] = Some out" by blast
  from th f m
  have b: "\<exists>res. slicing literal_engine (lit ''ab'') [lit ''b'']
            (Some (Match (\<lambda>word. new_RegExp literal_engine word ''g''))) = Some res" by blast
  from th f
  have c: "\<exists>res. slicing literal_engine (lit ''ab'') [lit ''b''] None = Some res" by blast
  have "lastIndex ?r = 0" by simp
  with th x
  have "scan_loop literal_engine ?r (lit ''ab'') [] =
        scan_loop literal_engine (?r\<lparr>lastIndex := 0 + 1\<rparr>) (lit ''ab'') []" by blast
  then have d: "scan_loop literal_engine ?r (lit ''ab'') [] =
        scan_loop literal_engine \<lparr>source = [], flags = ''g'', lastIndex = 1\<rparr> (lit ''ab'') []"
    by simp
  from f t x a b c d show ?thesis by (intro conjI)
qed

lemma push_positive:
  "\<forall>s \<in> set ms. start s < end' s \<Longrightarrow> \<forall>s \<in> set (push ms a b m). start s < end' s"
  by (simp add: push_def)

lemma fold_fill_step_positive:
  "\<forall>s \<in> set ms. start s < end' s \<Longrightarrow>
   \<forall>s \<in> set (fst (fold fill_step xs (ms, si))). start s < end' s"
proof (induction xs arbitrary: ms si)
  case Nil
  then show ?case by simp
next
  case (Cons x xs)
  have "\<forall>s \<in> set (push (push ms si (start x) False) (start x) (end' x) True). start s < end' s"
    by (intro push_positive Cons.prems)
  from Cons.IH[OF this] show ?case by (simp add: fill_step_def)
qed

lemma fillSliceGaps_positive: "\<forall>s \<in> set (fillSliceGaps xs n). start s < end' s"
proof -
  have "\<forall>s \<in> set (fst (fold fill_step xs ([], 0))). start s < end' s"
    by (rule fold_fill_step_positive) simp
  moreover obtain ms si where "fold fill_step xs ([], 0) = (ms, si)"
    by (cases "fold fill_step xs ([], 0)")
  ultimately show ?thesis
    by (simp add: fillSliceGaps_def push_def)
qed

lemma mergeOverlap_positive:
  "\<forall>s \<in> set xs. start s < end' s \<Longrightarrow> \<forall>s \<in> set (mergeOverlap xs). start s < end' s"
  by (rule mergeOverlap_preserves) auto

text \<open>
  C7. Every slice in the output of \<open>slicing\<close> (whatever the engine and the options), in
  the output of \<open>mergeOverlap\<close> when every input slice has \<open>start < end\<close>, and in the
  output of \<open>fillSliceGaps\<close> for every input, has \<open>start < end\<close>: none has length zero.
\<close>

theorem no_zero_length_spans:
  "(\<forall>out. slicing eng text searchWords opt = Some (Inr out) \<longrightarrow>
      (\<forall>s \<in> set out. start s < end' s)) \<and>
   ((\<forall>s \<in> set spans. start s < end' s) \<longrightarrow>
      (\<forall>s \<in> set (mergeOverlap spans). start s < end' s)) \<and>
   (\<forall>s \<in> set (fillSliceGaps spans n). start s < end' s)"
  using slicing_positive mergeOverlap_positive fillSliceGaps_positive by blast

theorem no_zero_length_spans_witness:
  "slicing literal_engine (lit ''Hello world'') [lit ''world'']
     (Some (Match (\<lambda>word. new_RegExp literal_engine word ''g''))) =
     Some (Inr [\<lparr>start = 6, end' = 11, matched = None\<rparr>]) \<and>
   list_all (\<lambda>s. start s < end' s) [\<lparr>start = 6, end' = 11, matched = None\<rparr>] \<and>
   list_all (\<lambda>s. start s < end' s)
     [\<lparr>start = 0, end' = 5, matched = None\<rparr>, \<lparr>start = 5, end' = 10, matched = None\<rparr>] \<and>
   list_all (\<lambda>s. start s < end' s)
     (mergeOverlap [\<lparr>start = 0, end' = 5, matched = None\<rparr>,
                    \<lparr>start = 5, end' = 10, matched = None\<rparr>]) \<and>
   list_all (\<lambda>s. start s < end' s)
     (fillSliceGaps [\<lparr>start = 0, end' = 5, matched = None\<rparr>,
                     \<lparr>start = 5, end' = 10, matched = None\<rparr>] 10)"
proof -
  let ?inp = "[\<lparr>start = 0, end' = 5, matched = None\<rparr>, \<lparr>start = 5, end' = 10, matched = None\<rparr>]"
  have ev: "slicing literal_engine (lit ''Hello world'') [lit ''world'']
     (Some (Match (\<lambda>word. new_RegExp literal_engine word ''g''))) =
     Some (Inr [\<lparr>start = 6, end' = 11, matched = None\<rparr>])"
    by (simp add: slicing_def unique_def new_RegExp_def scan_loop.simps exec_def tracked_def
        literal_engine_def lit_def)
  have h: "\<forall>s \<in> set ?inp. start s < end' s" by simp
  note th = no_zero_length_spans[of literal_engine "lit ''Hello world''" "[lit ''world'']"
      "Some (Match (\<lambda>word. new_RegExp literal_engine word ''g''))" ?inp 10]
  from th ev have a: "list_all (\<lambda>s. start s < end' s) [\<lparr>start = 6, end' = 11, matched = None\<rparr>]"
    unfolding list_all_iff by blast
  from th h have b: "list_all (\<lambda>s. start s < end' s) (mergeOverlap ?inp)"
    unfolding list_all_iff by blast
  from th have c: "list_all (\<lambda>s. start s < end' s) (fillSliceGaps ?inp 10)"
    unfolding list_all_iff by blast
  from h have d: "list_all (\<lambda>s. start s < end' s) ?inp" unfolding list_all_iff .
  from ev a d b c show ?thesis by (intro conjI)
qed

section \<open>Round trip\<close>

lemma tiles_le: "tiles a xs b \<Longrightarrow> a \<le> b"
  by (induction xs arbitrary: a) force+

lemma js_slice_inside:
  "0 \<le> a \<Longrightarrow> a \<le> e \<Longrightarrow> e \<le> int (length text) \<Longrightarrow>
   js_slice text a e = take (nat (e - a)) (drop (nat a) text)"
  by (simp add: js_slice_def Let_def min_def)

lemma take_drop_chain:
  assumes "0 \<le> a" "a \<le> e" "e \<le> b"
  shows "take (nat (e - a)) (drop (nat a) text) @ take (nat (b - e)) (drop (nat e) text) =
         take (nat (b - a)) (drop (nat a) text)"
proof -
  have 1: "nat (b - a) = nat (e - a) + nat (b - e)" using assms by simp
  have 2: "nat e = nat (e - a) + nat a" using assms by simp
  show ?thesis unfolding 1 take_add by (simp add: 2 add.commute)
qed

lemma tiles_concat:
  "tiles a out b \<Longrightarrow> 0 \<le> a \<Longrightarrow> b \<le> int (length text) \<Longrightarrow>
   concat (map (\<lambda>s. js_slice text (start s) (end' s)) out) = take (nat (b - a)) (drop (nat a) text)"
proof (induction out arbitrary: a)
  case Nil
  then show ?case by simp
next
  case (Cons s ss)
  from Cons.prems(1) have s: "start s = a" "a < end' s" and t: "tiles (end' s) ss b" by auto
  from tiles_le[OF t] have eb: "end' s \<le> b" .
  have "js_slice text a (end' s) = take (nat (end' s - a)) (drop (nat a) text)"
    using s eb Cons.prems(2,3) by (intro js_slice_inside) simp_all
  then have "js_slice text (start s) (end' s) = take (nat (end' s - a)) (drop (nat a) text)"
    by (simp only: s(1))
  moreover have "concat (map (\<lambda>s. js_slice text (start s) (end' s)) ss) =
        take (nat (b - end' s)) (drop (nat (end' s)) text)"
    using t s Cons.prems(2,3) by (intro Cons.IH) auto
  ultimately show ?case
    using take_drop_chain[of a "end' s" b "text"] s eb Cons.prems(2) by simp
qed

lemma mergeOverlap_in_text:
  "\<forall>s \<in> set xs. in_text text s \<Longrightarrow> \<forall>s \<in> set (mergeOverlap xs). in_text text s"
  by (rule mergeOverlap_preserves) (auto simp: in_text_def)

lemma mergeOverlap_sorted_disjoint_within:
  assumes "\<forall>s \<in> set xs. in_text text s"
  shows "sorted_disjoint_within (mergeOverlap xs) (int (length text))"
proof -
  from assms have wf: "\<forall>s \<in> set xs. start s \<le> end' s" by (auto simp: in_text_def)
  have "sorted_wrt (\<lambda>a b. end' a \<le> start b) (mergeOverlap xs)"
    by (rule sorted_wrt_mono_rel[OF _ mergeOverlap_apart[OF wf]]) simp
  with mergeOverlap_in_text[OF assms] show ?thesis
    by (auto simp: sorted_disjoint_within_def in_text_def)
qed

lemma pipeline_round_trip:
  assumes "\<forall>s \<in> set raw. in_text text s"
  shows "concat (map (\<lambda>s. js_slice text (start s) (end' s))
           (fillSliceGaps (mergeOverlap raw) (int (length text)))) = text"
proof (cases "text = []")
  case True
  then show ?thesis by (simp add: fillSliceGaps_def)
next
  case False
  then have "0 < int (length text)" by simp
  from tiles_fillSliceGaps[OF this mergeOverlap_sorted_disjoint_within[OF assms]]
  have "tiles 0 (fillSliceGaps (mergeOverlap raw) (int (length text))) (int (length text))" .
  from tiles_concat[OF this, of "text"] show ?thesis by simp
qed

lemma slicing_default_in_text:
  assumes "finds_forward eng text" "finds_within eng text"
    and "slicing eng text searchWords None = Some (Inr raw)"
  shows "\<forall>s \<in> set raw. in_text text s"
proof -
  from assms(3) have "scan_words eng (options_match eng default_options) text
      (filter (\<lambda>word. word \<noteq> []) (unique searchWords)) [] = Some (Inr raw)"
    by (simp add: slicing_def)
  moreover have "\<forall>w r. options_match eng default_options w = Inr r \<longrightarrow> tracked r"
    using options_match_tracked by blast
  ultimately show ?thesis
    using scan_words_in_text[of "options_match eng default_options" eng "text" _ "[]" raw] assms(1,2)
    by simp
qed

lemma slicing_default_returns_slices:
  assumes "finds_forward eng text"
    and "\<forall>word \<in> set searchWords.
           word \<noteq> [] \<longrightarrow> valid eng (options_pattern default_options word) ''gi''"
  shows "\<exists>raw. slicing eng text searchWords None = Some (Inr raw)"
proof -
  have "\<forall>w \<in> set (filter (\<lambda>word. word \<noteq> []) (unique searchWords)).
          \<exists>r. options_match eng default_options w = Inr r"
    using assms(2)
    by (auto simp: set_unique options_match_def new_RegExp_def options_flags_def default_options_def)
  moreover have "\<forall>w r. options_match eng default_options w = Inr r \<longrightarrow> tracked r"
    using options_match_tracked by blast
  ultimately have "\<exists>out. scan_words eng (options_match eng default_options) text
      (filter (\<lambda>word. word \<noteq> []) (unique searchWords)) [] = Some (Inr out)"
    using assms(1) by (intro scan_words_returns_slices) blast+
  then show ?thesis by (simp add: slicing_def)
qed

text \<open>
  C8. For every text and term list, with an engine whose occurrences start at or after the
  cursor and lie inside the text: \<open>sliceText(text, terms)\<close> returns or throws; it returns
  when the pattern of every term that is not empty compiles; and whenever it returns, concatenating
  \<open>text.slice(start, end)\<close> over the output, in order, gives back the text.
\<close>

theorem sliceText_round_trip:
  "finds_forward eng text \<and> finds_within eng text \<longrightarrow>
     (\<exists>res. sliceText eng text searchWords None = Some res) \<and>
     ((\<forall>word \<in> set searchWords.
          word \<noteq> [] \<longrightarrow> valid eng (options_pattern default_options word) ''gi'') \<longrightarrow>
        (\<exists>out. sliceText eng text searchWords None = Some (Inr out))) \<and>
     (\<forall>out. sliceText eng text searchWords None = Some (Inr out) \<longrightarrow>
        concat (map (\<lambda>s. js_slice text (start s) (end' s)) out) = text)"
proof (intro impI conjI allI)
  assume a: "finds_forward eng text \<and> finds_within eng text"
  then obtain res where "slicing eng text searchWords None = Some res"
    using slicing_default_returns by blast
  then show "\<exists>res. sliceText eng text searchWords None = Some res"
    by (cases res) (simp_all add: sliceText_def)
next
  assume a: "finds_forward eng text \<and> finds_within eng text"
    and "\<forall>word \<in> set searchWords.
           word \<noteq> [] \<longrightarrow> valid eng (options_pattern default_options word) ''gi''"
  then obtain raw where "slicing eng text searchWords None = Some (Inr raw)"
    using slicing_default_returns_slices by blast
  then show "\<exists>out. sliceText eng text searchWords None = Some (Inr out)"
    by (simp add: sliceText_def)
next
  fix out
  assume a: "finds_forward eng text \<and> finds_within eng text"
    and "sliceText eng text searchWords None = Some (Inr out)"
  then obtain raw where raw: "slicing eng text searchWords None = Some (Inr raw)"
    and out: "out = fillSliceGaps (mergeOverlap raw) (int (length text))"
    by (auto simp: sliceText_def split: option.splits sum.splits)
  from slicing_default_in_text[OF _ _ raw] a have "\<forall>s \<in> set raw. in_text text s" by blast
  then show "concat (map (\<lambda>s. js_slice text (start s) (end' s)) out) = text"
    unfolding out by (rule pipeline_round_trip)
qed

lemma ev_slice: "sliceText literal_engine (lit ''a b'') [lit '' ''] None =
     Some (Inr [\<lparr>start = 0, end' = 1, matched = Some False\<rparr>,
                \<lparr>start = 1, end' = 2, matched = Some True\<rparr>,
                \<lparr>start = 2, end' = 3, matched = Some False\<rparr>])"
  by (simp add: sliceText_def slicing_def unique_def options_match_def options_pattern_def
      options_flags_def default_options_def escapeRegex_def special_chars_def backslash_def
      pattern_def trim_def isWhiteSpace_def new_RegExp_def scan_loop.simps exec_def tracked_def
      literal_engine_def lit_def mergeOverlap_def fillSliceGaps_def fill_step_def push_def)

theorem sliceText_round_trip_witness:
  "finds_forward literal_engine (lit ''a b'') \<and> finds_within literal_engine (lit ''a b'') \<and>
   valid literal_engine (options_pattern default_options (lit '' '')) ''gi'' \<and>
   sliceText literal_engine (lit ''a b'') [lit '' ''] None =
     Some (Inr [\<lparr>start = 0, end' = 1, matched = Some False\<rparr>,
                \<lparr>start = 1, end' = 2, matched = Some True\<rparr>,
                \<lparr>start = 2, end' = 3, matched = Some False\<rparr>]) \<and>
   concat (map (\<lambda>s. js_slice (lit ''a b'') (start s) (end' s))
     [\<lparr>start = 0, end' = 1, matched = Some False\<rparr>,
      \<lparr>start = 1, end' = 2, matched = Some True\<rparr>,
      \<lparr>start = 2, end' = 3, matched = Some False\<rparr>]) = lit ''a b''"
proof -
  have f: "finds_forward literal_engine (lit ''a b'')" by (rule literal_engine_forward)
  have w: "finds_within literal_engine (lit ''a b'')" by (rule literal_engine_within)
  have v: "valid literal_engine (options_pattern default_options (lit '' '')) ''gi''"
    by (simp add: literal_engine_def)
  note ev = ev_slice
  from sliceText_round_trip[of literal_engine "lit ''a b''" "[lit '' '']"] f w ev
  have "concat (map (\<lambda>s. js_slice (lit ''a b'') (start s) (end' s))
     [\<lparr>start = 0, end' = 1, matched = Some False\<rparr>,
      \<lparr>start = 1, end' = 2, matched = Some True\<rparr>,
      \<lparr>start = 2, end' = 3, matched = Some False\<rparr>]) = lit ''a b''"
    by blast
  with f w v ev show ?thesis by (intro conjI)
qed

section \<open>White space terms\<close>

text \<open>
  C10. The filter of the scanner removes the empty term and nothing else, so a term that
  is not empty and consists of white space only is not dropped: whenever \<open>slicing\<close>
  returns for a term list that contains it, the output contains, as one block, the spans
  that the scan with its regular expression gives, which is \<open>new RegExp(term, 'gi')\<close>
  with the default configuration, the raw term with the flags \<open>g\<close> or \<open>gi\<close> with any
  configuration object, and what the factory returns with a matcher factory; and
  \<open>slicing\<close> with the default configuration does return when the engine reports occurrences at or after the cursor and
  the patterns compile. \<open>pattern\<close> returns the term unchanged for the modes \<open>true\<close>,
  \<open>'start'\<close> and \<open>'end'\<close>, because its trimmed form is empty; so under the default
  configuration its matcher is \<open>new RegExp(term, 'gi')\<close>, the raw term without anchors.
\<close>

theorem whitespace_term_unanchored:
  "set (filter (\<lambda>w. w \<noteq> []) (unique searchWords)) = set searchWords - {[]} \<and>
   (word \<noteq> [] \<and> (\<forall>c \<in> set word. isWhiteSpace c) \<longrightarrow>
     (word \<in> set searchWords \<longrightarrow>
        word \<in> set (filter (\<lambda>w. w \<noteq> []) (unique searchWords)) \<and>
        (\<forall>out. slicing eng text searchWords None = Some (Inr out) \<longrightarrow>
           (\<exists>occ pre post.
              scan_loop eng \<lparr>source = word, flags = ''gi'', lastIndex = 0\<rparr> text [] = Some occ \<and>
              out = pre @ occ @ post)) \<and>
        (\<forall>out opts. slicing eng text searchWords (Some (Options opts)) = Some (Inr out) \<longrightarrow>
           (\<exists>occ pre post.
              scan_loop eng
                \<lparr>source = word,
                 flags = (if caseSensitive opts = Some True then ''g'' else ''gi''),
                 lastIndex = 0\<rparr> text [] = Some occ \<and>
              out = pre @ occ @ post)) \<and>
        (\<forall>out f. slicing eng text searchWords (Some (Match f)) = Some (Inr out) \<longrightarrow>
           (\<exists>r occ pre post.
              f word = Inr r \<and> scan_loop eng r text [] = Some occ \<and> out = pre @ occ @ post)) \<and>
        (finds_forward eng text \<and>
         (\<forall>w \<in> set searchWords.
            w \<noteq> [] \<longrightarrow> valid eng (options_pattern default_options w) ''gi'') \<longrightarrow>
           (\<exists>out. slicing eng text searchWords None = Some (Inr out)))) \<and>
     trim word = [] \<and>
     pattern word (BoundaryBool True) = word \<and>
     pattern word BoundaryStart = word \<and>
     pattern word BoundaryEnd = word \<and>
     options_match eng default_options word = new_RegExp eng word ''gi'' \<and>
     slicing eng text [word] None =
       (case new_RegExp eng word ''gi'' of
          Inl e \<Rightarrow> Some (Inl e)
        | Inr regex \<Rightarrow> map_option Inr (scan_loop eng regex text [])))"
proof (rule conjI, goal_cases)
  case 1
  show ?case by (auto simp: set_unique)
next
  case 2
  show ?case
  proof (rule impI)
    assume a: "word \<noteq> [] \<and> (\<forall>c \<in> set word. isWhiteSpace c)"
    then have t: "trim word = []" by (simp add: trim_empty_iff)
    from a have esc: "escapeRegex word = word"
      by (intro escapeRegex_id) (auto dest: whitespace_not_special)
    have p: "pattern word b = word" for b by (simp add: pattern_def t)
    have m: "options_match eng default_options word = new_RegExp eng word ''gi''"
      by (simp add: options_match_def options_pattern_def options_flags_def default_options_def esc p)
    have s: "slicing eng text [word] None =
         (case new_RegExp eng word ''gi'' of
            Inl e \<Rightarrow> Some (Inl e)
          | Inr regex \<Rightarrow> map_option Inr (scan_loop eng regex text []))"
      using a by (simp add: slicing_def unique_def m split: sum.splits option.splits)
    have kept: "word \<in> set (filter (\<lambda>w. w \<noteq> []) (unique searchWords))"
      if "word \<in> set searchWords"
      using that a by (simp add: set_unique)
    have om: "options_match eng opts word =
        new_RegExp eng word (if caseSensitive opts = Some True then ''g'' else ''gi'')" for opts
      by (simp add: options_match_def options_pattern_def options_flags_def esc p
          split: option.splits)
    have contains: "\<exists>r occ pre post.
        mtch word = Inr r \<and> scan_loop eng r text [] = Some occ \<and> out = pre @ occ @ post"
      if mem: "word \<in> set searchWords"
        and ret: "scan_words eng mtch text
          (filter (\<lambda>w. w \<noteq> []) (unique searchWords)) [] = Some (Inr out)" for mtch out
      by (rule scan_words_contains[OF ret kept[OF mem]])
    have block_opts: "\<exists>occ pre post.
        scan_loop eng
          \<lparr>source = word, flags = (if caseSensitive opts = Some True then ''g'' else ''gi''),
           lastIndex = 0\<rparr> text [] = Some occ \<and>
        out = pre @ occ @ post"
      if mem: "word \<in> set searchWords"
        and ret: "slicing eng text searchWords (Some (Options opts)) = Some (Inr out)" for out opts
    proof -
      from ret have "scan_words eng (options_match eng opts) text
          (filter (\<lambda>w. w \<noteq> []) (unique searchWords)) [] = Some (Inr out)"
        by (simp add: slicing_def)
      from contains[OF mem this] obtain r occ pre post where
        r: "options_match eng opts word = Inr r"
        and occ: "scan_loop eng r text [] = Some occ" "out = pre @ occ @ post"
        by blast
      from r om[of opts] have "r = \<lparr>source = word,
          flags = (if caseSensitive opts = Some True then ''g'' else ''gi''), lastIndex = 0\<rparr>"
        by (auto simp: new_RegExp_def split: if_splits)
      with occ show ?thesis by blast
    qed
    have block_match: "\<exists>r occ pre post.
        f word = Inr r \<and> scan_loop eng r text [] = Some occ \<and> out = pre @ occ @ post"
      if mem: "word \<in> set searchWords"
        and ret: "slicing eng text searchWords (Some (Match f)) = Some (Inr out)" for out f
    proof -
      from ret have "scan_words eng f text
          (filter (\<lambda>w. w \<noteq> []) (unique searchWords)) [] = Some (Inr out)"
        by (simp add: slicing_def)
      from contains[OF mem this] show ?thesis .
    qed
    have block: "\<exists>occ pre post.
        scan_loop eng \<lparr>source = word, flags = ''gi'', lastIndex = 0\<rparr> text [] = Some occ \<and>
        out = pre @ occ @ post"
      if mem: "word \<in> set searchWords"
        and ret: "slicing eng text searchWords None = Some (Inr out)" for out
    proof -
      from ret have "slicing eng text searchWords (Some (Options default_options)) = Some (Inr out)"
        by (simp add: slicing_def)
      from block_opts[OF mem this] show ?thesis by (simp add: default_options_def)
    qed
    have returns: "\<exists>out. slicing eng text searchWords None = Some (Inr out)"
      if "finds_forward eng text \<and>
         (\<forall>w \<in> set searchWords.
            w \<noteq> [] \<longrightarrow> valid eng (options_pattern default_options w) ''gi'')"
      using that by (intro slicing_default_returns_slices) simp_all
    from t p[of "BoundaryBool True"] p[of BoundaryStart] p[of BoundaryEnd] m s kept block
      block_opts block_match returns
    show "(word \<in> set searchWords \<longrightarrow>
        word \<in> set (filter (\<lambda>w. w \<noteq> []) (unique searchWords)) \<and>
        (\<forall>out. slicing eng text searchWords None = Some (Inr out) \<longrightarrow>
           (\<exists>occ pre post.
              scan_loop eng \<lparr>source = word, flags = ''gi'', lastIndex = 0\<rparr> text [] = Some occ \<and>
              out = pre @ occ @ post)) \<and>
        (\<forall>out opts. slicing eng text searchWords (Some (Options opts)) = Some (Inr out) \<longrightarrow>
           (\<exists>occ pre post.
              scan_loop eng
                \<lparr>source = word,
                 flags = (if caseSensitive opts = Some True then ''g'' else ''gi''),
                 lastIndex = 0\<rparr> text [] = Some occ \<and>
              out = pre @ occ @ post)) \<and>
        (\<forall>out f. slicing eng text searchWords (Some (Match f)) = Some (Inr out) \<longrightarrow>
           (\<exists>r occ pre post.
              f word = Inr r \<and> scan_loop eng r text [] = Some occ \<and> out = pre @ occ @ post)) \<and>
        (finds_forward eng text \<and>
         (\<forall>w \<in> set searchWords.
            w \<noteq> [] \<longrightarrow> valid eng (options_pattern default_options w) ''gi'') \<longrightarrow>
           (\<exists>out. slicing eng text searchWords None = Some (Inr out)))) \<and>
     trim word = [] \<and>
     pattern word (BoundaryBool True) = word \<and>
     pattern word BoundaryStart = word \<and>
     pattern word BoundaryEnd = word \<and>
     options_match eng default_options word = new_RegExp eng word ''gi'' \<and>
     slicing eng text [word] None =
       (case new_RegExp eng word ''gi'' of
          Inl e \<Rightarrow> Some (Inl e)
        | Inr regex \<Rightarrow> map_option Inr (scan_loop eng regex text []))"
      by (intro conjI impI allI) blast+
  qed
qed

lemma slicing_space_example:
  "slicing literal_engine (lit '' word '') [lit ''x'', lit '' '', lit ''x''] None =
     Some (Inr [\<lparr>start = 0, end' = 1, matched = None\<rparr>, \<lparr>start = 5, end' = 6, matched = None\<rparr>])"
  by (simp add: slicing_def unique_def options_match_def options_pattern_def
      options_flags_def default_options_def escapeRegex_def special_chars_def backslash_def
      pattern_def trim_def isWhiteSpace_def new_RegExp_def scan_loop.simps exec_def tracked_def
      literal_engine_def lit_def)

lemma scan_space_example:
  "scan_loop literal_engine \<lparr>source = lit '' '', flags = ''gi'', lastIndex = 0\<rparr>
     (lit '' word '') [] =
     Some [\<lparr>start = 0, end' = 1, matched = None\<rparr>, \<lparr>start = 5, end' = 6, matched = None\<rparr>]"
  by (simp add: scan_loop.simps exec_def tracked_def literal_engine_def lit_def)

theorem whitespace_term_unanchored_witness:
  "lit '' '' \<noteq> [] \<and> list_all isWhiteSpace (lit '' '') \<and>
   lit '' '' \<in> set [lit ''x'', lit '' '', lit ''x''] \<and>
   lit '' '' \<in> set (filter (\<lambda>w. w \<noteq> []) (unique [lit ''x'', lit '' '', lit ''x''])) \<and>
   finds_forward literal_engine (lit '' word '') \<and>
   slicing literal_engine (lit '' word '') [lit ''x'', lit '' '', lit ''x''] None =
     Some (Inr [\<lparr>start = 0, end' = 1, matched = None\<rparr>, \<lparr>start = 5, end' = 6, matched = None\<rparr>]) \<and>
   scan_loop literal_engine \<lparr>source = lit '' '', flags = ''gi'', lastIndex = 0\<rparr>
     (lit '' word '') [] =
     Some [\<lparr>start = 0, end' = 1, matched = None\<rparr>, \<lparr>start = 5, end' = 6, matched = None\<rparr>] \<and>
   (\<exists>occ pre post.
      scan_loop literal_engine \<lparr>source = lit '' '', flags = ''gi'', lastIndex = 0\<rparr>
        (lit '' word '') [] = Some occ \<and>
      [\<lparr>start = 0, end' = 1, matched = None\<rparr>, \<lparr>start = 5, end' = 6, matched = None\<rparr>] =
        pre @ occ @ post) \<and>
   pattern (lit '' '') (BoundaryBool True) = lit '' '' \<and>
   options_match literal_engine default_options (lit '' '') =
     new_RegExp literal_engine (lit '' '') ''gi'' \<and>
   slicing literal_engine (lit '' word '') [lit '' ''] None =
     Some (Inr [\<lparr>start = 0, end' = 1, matched = None\<rparr>, \<lparr>start = 5, end' = 6, matched = None\<rparr>])"
proof -
  let ?ws = "[lit ''x'', lit '' '', lit ''x'']"
  let ?out = "[\<lparr>start = 0, end' = 1, matched = None\<rparr>, \<lparr>start = 5, end' = 6, matched = None\<rparr>]"
  have h: "lit '' '' \<noteq> [] \<and> (\<forall>c \<in> set (lit '' ''). isWhiteSpace c)"
    by (simp add: lit_def isWhiteSpace_def)
  have la: "list_all isWhiteSpace (lit '' '')" using h by (simp add: list_all_iff)
  have m: "lit '' '' \<in> set ?ws" by simp
  have f: "finds_forward literal_engine (lit '' word '')" by (rule literal_engine_forward)
  note ev = slicing_space_example
  note sc = scan_space_example
  have one: "(case new_RegExp literal_engine (lit '' '') ''gi'' of
          Inl e \<Rightarrow> Some (Inl e)
        | Inr regex \<Rightarrow> map_option Inr (scan_loop literal_engine regex (lit '' word '') [])) =
     Some (Inr ?out)"
    by (simp add: new_RegExp_def scan_loop.simps exec_def tracked_def literal_engine_def lit_def)
  note th = whitespace_term_unanchored[of ?ws "lit '' ''" literal_engine "lit '' word ''"]
  from th h m have k: "lit '' '' \<in> set (filter (\<lambda>w. w \<noteq> []) (unique ?ws))" by blast
  from th h m ev have b: "\<exists>occ pre post.
      scan_loop literal_engine \<lparr>source = lit '' '', flags = ''gi'', lastIndex = 0\<rparr>
        (lit '' word '') [] = Some occ \<and> ?out = pre @ occ @ post"
    by blast
  from th h have p: "pattern (lit '' '') (BoundaryBool True) = lit '' ''" by blast
  from th h have om: "options_match literal_engine default_options (lit '' '') =
     new_RegExp literal_engine (lit '' '') ''gi''" by blast
  from th h have "slicing literal_engine (lit '' word '') [lit '' ''] None =
       (case new_RegExp literal_engine (lit '' '') ''gi'' of
          Inl e \<Rightarrow> Some (Inl e)
        | Inr regex \<Rightarrow> map_option Inr (scan_loop literal_engine regex (lit '' word '') []))"
    by blast
  from this one have s1: "slicing literal_engine (lit '' word '') [lit '' ''] None = Some (Inr ?out)"
    by (rule trans)
  from h have ne: "lit '' '' \<noteq> []" by blast
  from ne la m k f ev sc b p om s1 show ?thesis by (intro conjI)
qed

end
